theory Spec2Isabelle
  imports Main "HOL-Library.AList"
begin

section \<open>Data model of \<^verbatim>\<open>utils_greedy_bfs.py\<close>\<close>

text \<open>
  A \<^verbatim>\<open>StandardCoord\<close> is a triple of Python integers (unbounded, hence \<^typ>\<open>int\<close>).
  A \<^verbatim>\<open>StandardBeam\<close> is a list of coordinates, a \<^verbatim>\<open>NodeBeams\<close> a list of beams, and
  \<^verbatim>\<open>all_beams\<close> is annotated \<^verbatim>\<open>List[NodeBeams]\<close>. A \<^verbatim>\<open>StandardBlock\<close> is a pair of a
  coordinate and a kind string.
\<close>

type_synonym coord = "int \<times> int \<times> int"
type_synonym beam = "coord list"
type_synonym node_beams = "beam list"
type_synonym block = "coord \<times> string"

text \<open>The exceptions the modelled functions can raise.\<close>

datatype error = IndexError | KeyError | ValueError

text \<open>
  Python compares a tuple with a list by \<^verbatim>\<open>==\<close> as unequal, whatever they hold. The
  values that can meet in \<^verbatim>\<open>coord in all_beams\<close> are therefore kept apart by their
  constructor: a coordinate tuple, or a list of further values.
\<close>

datatype pyobj = PTuple coord | PList "pyobj list"

definition obj_of_beam :: "beam \<Rightarrow> pyobj" where
  "obj_of_beam b = PList (map PTuple b)"

definition obj_of_node_beams :: "node_beams \<Rightarrow> pyobj" where
  "obj_of_node_beams nb = PList (map obj_of_beam nb)"

text \<open>Manhattan distance between two coordinates.\<close>

definition manhattan :: "coord \<Rightarrow> coord \<Rightarrow> int" where
  "manhattan s t =
     (case s of (sx, sy, sz) \<Rightarrow> case t of (tx, ty, tz) \<Rightarrow>
        \<bar>tx - sx\<bar> + \<bar>ty - sy\<bar> + \<bar>tz - sz\<bar>)"

section \<open>Obstruction checker\<close>

text \<open>\<^verbatim>\<open>1 if d > 0 else -1 if d < 0 else 0\<close>\<close>

definition unit_direction :: "int \<Rightarrow> int" where
  "unit_direction d = (if d > 0 then 1 else if d < 0 then - 1 else 0)"

text \<open>
  The cells \<^verbatim>\<open>source + i * direction\<close> for \<^verbatim>\<open>i in range(1, length_of_beams)\<close>.
\<close>

definition synthesized_beam :: "coord \<Rightarrow> coord \<Rightarrow> int \<Rightarrow> beam" where
  "synthesized_beam source_coord target_coord length_of_beams =
     (case source_coord of (sx, sy, sz) \<Rightarrow> case target_coord of (tx, ty, tz) \<Rightarrow>
        let d0 = unit_direction (tx - sx);
            d1 = unit_direction (ty - sy);
            d2 = unit_direction (tz - sz)
        in map (\<lambda>i. (sx + d0 * i, sy + d1 * i, sz + d2 * i)) [1 .. length_of_beams - 1])"

text \<open>
  \<^verbatim>\<open>coord in all_beams\<close>: membership by Python equality among the elements of
  \<^verbatim>\<open>all_beams\<close>, which are \<^verbatim>\<open>NodeBeams\<close> lists.
\<close>

definition coord_in_all_beams :: "coord \<Rightarrow> node_beams list \<Rightarrow> bool" where
  "coord_in_all_beams c all_beams \<longleftrightarrow> PTuple c \<in> set (map obj_of_node_beams all_beams)"

definition check_unobstructed ::
  "coord \<Rightarrow> coord \<Rightarrow> coord list \<Rightarrow> node_beams list \<Rightarrow> int \<Rightarrow> bool \<times> beam" where
  "check_unobstructed source_coord target_coord occupied all_beams length_of_beams =
     (let single_beam_for_exit = synthesized_beam source_coord target_coord length_of_beams
      in if occupied = [] then (True, single_beam_for_exit)
         else if list_ex (\<lambda>c. c \<in> set occupied \<or> coord_in_all_beams c all_beams)
                   single_beam_for_exit
              then (False, single_beam_for_exit)
              else (True, single_beam_for_exit))"

text \<open>
  What the specification calls lying inside some individual beam contained in
  \<^verbatim>\<open>all_beams\<close>: the cell is an element of a beam of some node's beams.
\<close>

definition inside_some_beam :: "coord \<Rightarrow> node_beams list \<Rightarrow> bool" where
  "inside_some_beam c all_beams \<longleftrightarrow> list_ex (\<lambda>nb. list_ex (\<lambda>b. c \<in> set b) nb) all_beams"

section \<open>Candidate generator: the move test\<close>

definition is_move_allowed :: "coord \<Rightarrow> coord \<Rightarrow> bool" where
  "is_move_allowed source_coords next_coords =
     (case source_coords of (sx, sy, sz) \<Rightarrow> case next_coords of (nx, ny, nz) \<Rightarrow>
        let manhattan_distance = \<bar>nx - sx\<bar> + \<bar>ny - sy\<bar> + \<bar>nz - sz\<bar>
        in manhattan_distance mod 3 = 0)"

section \<open>Candidate generator: tentative target positions\<close>

text \<open>
  The Python \<^verbatim>\<open>set\<close> of targets is a list without duplicates: \<^verbatim>\<open>add\<close> appends an
  element that is not yet there. Python does not specify the order in which a set is
  listed, so only the membership, the distinctness and the number of the returned
  coordinates are meaningful.
\<close>

definition set_add :: "'a \<Rightarrow> 'a list \<Rightarrow> 'a list" where
  "set_add x xs = (if x \<in> set xs then xs else xs @ [x])"

text \<open>\<^verbatim>\<open>range(start, stop, 3)\<close>\<close>

definition range3 :: "int \<Rightarrow> int \<Rightarrow> int list" where
  "range3 start stop = map (\<lambda>i. start + 3 * int i) [0 ..< nat ((stop - start + 2) div 3)]"

text \<open>
  \<^verbatim>\<open>random.choice(seq)\<close> raises \<^verbatim>\<open>IndexError\<close> on an empty sequence and otherwise returns
  the element at a random position; \<open>r\<close> is the raw number drawn, so every element can
  be returned.
\<close>

definition choice :: "nat \<Rightarrow> 'a list \<Rightarrow> error + 'a" where
  "choice r xs = (if xs = [] then Inl IndexError else Inr (xs ! (r mod length xs)))"

text \<open>The six single moves of \<^verbatim>\<open>step == 3\<close>.\<close>

definition single_moves :: "coord \<Rightarrow> coord list" where
  "single_moves source_coords =
     (case source_coords of (sx, sy, sz) \<Rightarrow>
        [(sx + 3, sy, sz), (sx - 3, sy, sz), (sx, sy + 3, sz),
         (sx, sy - 3, sz), (sx, sy, sz + 3), (sx, sy, sz - 3)])"

text \<open>
  The loops of \<^verbatim>\<open>step == 6\<close>, nested as the source indents them: the second and the
  third pair of loops run inside the outer loop over \<^verbatim>\<open>dx\<close>, once per outer iteration.
\<close>

definition double_moves :: "coord \<Rightarrow> coord list" where
  "double_moves source_coords =
     (case source_coords of (sx, sy, sz) \<Rightarrow>
        fold (\<lambda>dx targets.
                let t1 = fold (\<lambda>dy. set_add (sx + dx, sy + dy, sz)) [- 3, 3] targets;
                    t2 = fold (\<lambda>dx'. fold (\<lambda>dz. set_add (sx + dx', sy, sz + dz)) [- 3, 3])
                           [- 3, 3] t1;
                    t3 = fold (\<lambda>dy. fold (\<lambda>dz. set_add (sx, sy + dy, sz + dz)) [- 3, 3])
                           [- 3, 3] t2
                in t3)
             [- 3, 3] [])"

text \<open>The loops of \<^verbatim>\<open>step == 9\<close>.\<close>

definition triple_moves :: "coord \<Rightarrow> coord list" where
  "triple_moves source_coords =
     (case source_coords of (sx, sy, sz) \<Rightarrow>
        fold (\<lambda>dx. fold (\<lambda>dy. fold (\<lambda>dz targets.
                 if \<bar>dx\<bar> + \<bar>dy\<bar> + \<bar>dz\<bar> = 9 then set_add (sx + dx, sy + dy, sz + dz) targets
                 else targets) [- 3, 3]) [- 3, 3])
             [- 3, 3] [])"

text \<open>
  The guarded \<^verbatim>\<open>valid_targets.add\<close> of the randomized search, for the moves
  \<open>(mx, my, mz)\<close>.
\<close>

definition add_if_valid ::
  "coord \<Rightarrow> int \<Rightarrow> coord list \<Rightarrow> int \<times> int \<times> int \<Rightarrow> coord list \<Rightarrow> coord list" where
  "add_if_valid source_coords step occupied_coords m valid_targets =
     (case source_coords of (sx, sy, sz) \<Rightarrow> case m of (mx, my, mz) \<Rightarrow>
        if \<bar>mx\<bar> + \<bar>my\<bar> + \<bar>mz\<bar> = step \<and> (sx + mx, sy + my, sz + mz) \<notin> set occupied_coords
        then set_add (sx + mx, sy + my, sz + mz) valid_targets
        else valid_targets)"

text \<open>
  One pass of the \<^verbatim>\<open>while\<close> body. The source of randomness is a function \<open>rnd\<close> from
  the number of the draw to the raw number drawn; attempt \<open>n\<close> makes the draws \<open>2 n\<close>
  and \<open>2 n + 1\<close>.
\<close>

definition attempt ::
  "(nat \<Rightarrow> nat) \<Rightarrow> nat \<Rightarrow> coord \<Rightarrow> int \<Rightarrow> coord list \<Rightarrow> coord list \<Rightarrow> error + coord list" where
  "attempt rnd attempts source_coords step occupied_coords valid_targets =
     (case choice (rnd (2 * attempts)) (range3 (- step) (step + 1)) of
        Inl e \<Rightarrow> Inl e
      | Inr move_x \<Rightarrow>
          let remaining_steps = step - \<bar>move_x\<bar> in
          (case choice (rnd (2 * attempts + 1))
                  (range3 (- remaining_steps) (remaining_steps + 1)) of
             Inl e \<Rightarrow> Inl e
           | Inr move_y \<Rightarrow>
               let move_z = remaining_steps - \<bar>move_y\<bar>;
                   valid_targets1 =
                     add_if_valid source_coords step occupied_coords
                       (move_x, move_y, move_z) valid_targets;
                   permutations =
                     [(move_x, move_y, move_z), (move_x, move_z, move_y),
                      (move_y, move_x, move_z), (move_y, move_z, move_x),
                      (move_z, move_x, move_y), (move_z, move_y, move_x)]
               in Inr (fold (add_if_valid source_coords step occupied_coords)
                         permutations valid_targets1)))"

text \<open>
  \<^verbatim>\<open>while len(valid_targets) < 12 and attempts < max_attempts\<close>, with
  \<^verbatim>\<open>max_attempts = 500\<close>; the result is the set found and the number of attempts made.
\<close>

function search_loop ::
  "(nat \<Rightarrow> nat) \<Rightarrow> coord \<Rightarrow> int \<Rightarrow> coord list \<Rightarrow> coord list \<Rightarrow> nat
     \<Rightarrow> error + (coord list \<times> nat)" where
  "search_loop rnd source_coords step occupied_coords valid_targets attempts =
     (if length valid_targets < 12 \<and> attempts < 500
      then (case attempt rnd attempts source_coords step occupied_coords valid_targets of
              Inl e \<Rightarrow> Inl e
            | Inr valid_targets' \<Rightarrow>
                search_loop rnd source_coords step occupied_coords valid_targets'
                  (attempts + 1))
      else Inr (valid_targets, attempts))"
  by pat_completeness auto
termination
  by (relation "measure (\<lambda>(rnd, source_coords, step, occupied_coords, valid_targets, attempts).
        500 - attempts)") auto

definition generate_tentative_target_positions ::
  "(nat \<Rightarrow> nat) \<Rightarrow> coord \<Rightarrow> int \<Rightarrow> coord list \<Rightarrow> error + coord list" where
  "generate_tentative_target_positions rnd source_coords step occupied_coords =
     (if step = 3
      then Inr (filter (\<lambda>coords. coords \<notin> set occupied_coords) (single_moves source_coords))
      else if step = 6
      then Inr (filter (\<lambda>coords. coords \<notin> set occupied_coords) (double_moves source_coords))
      else if step = 9
      then Inr (filter (\<lambda>coords. coords \<notin> set occupied_coords) (triple_moves source_coords))
      else if step > 9 \<and> step mod 3 = 0
      then (case search_loop rnd source_coords step occupied_coords [] 0 of
              Inl e \<Rightarrow> Inl e
            | Inr (valid_targets, attempts) \<Rightarrow> Inr valid_targets)
      else Inr [])"

text \<open>
  A run of the randomized search: the raw draws 4, 5, 3, 3, 6, 1 pick the moves
  \<open>(0, 3, 9)\<close>, \<open>(-3, 0, 9)\<close> and \<open>(6, -3, 3)\<close> for the step 12.
\<close>

definition draws_17 :: "nat \<Rightarrow> nat" where
  "draws_17 k = (if k < 6 then [4, 5, 3, 3, 6, 1] ! k else 0)"

text \<open>
  What the specification calls a combination of \<open>\<plusminus>3\<close> offsets on exactly two of the three
  axes: every component is 0, 3 or \<open>-3\<close>, and exactly one component is 0.
\<close>

definition two_axis_offset :: "int \<times> int \<times> int \<Rightarrow> bool" where
  "two_axis_offset d =
     (case d of (dx, dy, dz) \<Rightarrow>
        \<bar>dx\<bar> \<in> {0, 3} \<and> \<bar>dy\<bar> \<in> {0, 3} \<and> \<bar>dz\<bar> \<in> {0, 3} \<and> count_list [dx, dy, dz] 0 = 1)"

text \<open>
  The invariant of the randomized search: the targets found so far are pairwise
  distinct, at Manhattan distance \<open>step\<close> from the source, and not occupied.
\<close>

definition good_targets :: "coord \<Rightarrow> int \<Rightarrow> coord list \<Rightarrow> coord list \<Rightarrow> bool" where
  "good_targets s step occ vt \<longleftrightarrow>
     distinct vt \<and> list_all (\<lambda>c. manhattan s c = step \<and> c \<notin> set occ) vt"

section \<open>Lattice assembler\<close>

text \<open>
  An edge path, as \<^verbatim>\<open>build_newly_indexed_path_dict\<close> reads it: the pair of endpoint
  ids under \<^verbatim>\<open>"src_tgt_ids"\<close> and the list of blocks and pipes under \<^verbatim>\<open>"path_nodes"\<close>.
  The function only iterates over \<^verbatim>\<open>edge_paths.values()\<close>, so its argument is the list
  of these values in the dictionary's order.
\<close>

record edge_path =
  src_tgt_ids :: "int \<times> int"
  path_nodes :: "block list"

text \<open>
  A Python \<^verbatim>\<open>dict\<close> keeps its keys in the order of their first insertion, and an
  assignment to a key that is present replaces the value where it stands. This is an
  association list with \<^const>\<open>AList.update\<close> as assignment; \<^const>\<open>map_of\<close> reads it.
\<close>

type_synonym indexed_path = "(int \<times> block) list"
type_synonym indexed_paths = "((int \<times> int) \<times> indexed_path) list"
type_synonym lattice_nodes = "(int \<times> block) list"
type_synonym lattice_edges = "((int \<times> int) \<times> string) list"

text \<open>The first loop: \<^verbatim>\<open>max_id = max(max_id, ids[0], ids[1])\<close>, from 0.\<close>

definition max_endpoint_id :: "edge_path list \<Rightarrow> int" where
  "max_endpoint_id edge_paths =
     fold (\<lambda>edge_path max_id.
             max (max max_id (fst (src_tgt_ids edge_path))) (snd (src_tgt_ids edge_path)))
          edge_paths 0"

text \<open>
  The body of the second loop for one edge path, from the counter \<open>next_id\<close>: the
  indexed path and the counter afterwards. \<^verbatim>\<open>nodes_in_path[0]\<close> raises on an empty
  path.
\<close>

definition index_path :: "int \<Rightarrow> edge_path \<Rightarrow> error + (indexed_path \<times> int)" where
  "index_path next_id edge_path =
     (case src_tgt_ids edge_path of (start_key, end_key) \<Rightarrow>
        let nodes_in_path = path_nodes edge_path in
        if nodes_in_path = [] then Inl IndexError
        else
          let indexed_path0 = AList.update start_key (nodes_in_path ! 0) [];
              (indexed_path1, next_id1) =
                 fold (\<lambda>i (indexed_path, next_id).
                         (AList.update next_id (nodes_in_path ! i) indexed_path, next_id + 1))
                      [1 ..< length nodes_in_path - 1] (indexed_path0, next_id);
              indexed_path2 =
                 (if length nodes_in_path > 1
                  then AList.update end_key (last nodes_in_path) indexed_path1
                  else indexed_path1)
          in Inr (indexed_path2, next_id1))"

text \<open>
  The second loop: \<^verbatim>\<open>indexed_paths[(start_key, end_key)] = indexed_path\<close> for every
  edge path in turn, with the one counter \<open>next_id\<close> running through all of them.
\<close>

fun index_paths ::
  "edge_path list \<Rightarrow> indexed_paths \<Rightarrow> int \<Rightarrow> error + (indexed_paths \<times> int)" where
  "index_paths [] indexed_paths next_id = Inr (indexed_paths, next_id)"
| "index_paths (edge_path # edge_paths) indexed_paths next_id =
     (case index_path next_id edge_path of
        Inl e \<Rightarrow> Inl e
      | Inr (indexed_path, next_id') \<Rightarrow>
          index_paths edge_paths
            (AList.update (src_tgt_ids edge_path) indexed_path indexed_paths) next_id')"

text \<open>
  The last loop, for one indexed path: entry \<open>i\<close> goes to the nodes when \<open>i\<close> is even,
  and otherwise to the edges under \<^verbatim>\<open>(keys[i - 1], keys[i + 1])\<close>, where \<^verbatim>\<open>keys[i + 1]\<close>
  raises when entry \<open>i\<close> is the last one.
\<close>

fun lattice_item ::
  "int list \<Rightarrow> nat \<Rightarrow> indexed_path \<Rightarrow> lattice_nodes \<times> lattice_edges
     \<Rightarrow> error + (lattice_nodes \<times> lattice_edges)" where
  "lattice_item keys i [] acc = Inr acc"
| "lattice_item keys i ((node_key, node_info) # rest) (latice_nodes, latice_edges) =
     (if i mod 2 = 0
      then lattice_item keys (i + 1) rest
             (AList.update node_key node_info latice_nodes, latice_edges)
      else if i + 1 < length keys
      then lattice_item keys (i + 1) rest
             (latice_nodes,
              AList.update (keys ! (i - 1), keys ! (i + 1)) (snd node_info) latice_edges)
      else Inl IndexError)"

fun lattice_items ::
  "indexed_path list \<Rightarrow> lattice_nodes \<times> lattice_edges
     \<Rightarrow> error + (lattice_nodes \<times> lattice_edges)" where
  "lattice_items [] acc = Inr acc"
| "lattice_items (item # items) acc =
     (case lattice_item (map fst item) 0 item acc of
        Inl e \<Rightarrow> Inl e
      | Inr acc' \<Rightarrow> lattice_items items acc')"

text \<open>
  \<^verbatim>\<open>build_newly_indexed_path_dict\<close>. The list \<^verbatim>\<open>final_edges\<close> that the source builds
  between the second and the last loop is never read again, and building it cannot
  raise (it reads \<^verbatim>\<open>edge_ids[i]\<close> only for \<open>i\<close> below the number of blocks minus one);
  it is left out.
\<close>

definition build_newly_indexed_path_dict ::
  "edge_path list \<Rightarrow> error + (lattice_nodes \<times> lattice_edges)" where
  "build_newly_indexed_path_dict edge_paths =
     (let max_id = max_endpoint_id edge_paths;
          next_id = max_id + 1
      in case index_paths edge_paths [] next_id of
           Inl e \<Rightarrow> Inl e
         | Inr (indexed_paths, next_id') \<Rightarrow> lattice_items (map snd indexed_paths) ([], []))"

text \<open>
  The number of strictly intermediate elements of a path, and of a list of paths.
\<close>

definition n_mid :: "edge_path \<Rightarrow> nat" where
  "n_mid ep = length (path_nodes ep) - 2"

definition total_mid :: "edge_path list \<Rightarrow> nat" where
  "total_mid eps = sum_list (map n_mid eps)"

text \<open>
  The id that the specification gives to element \<open>p\<close> of a path whose first fresh id
  is \<open>b\<close>: the declared start id for the first element, the declared end id for the
  last, and the fresh id \<open>b + p - 1\<close> for an element strictly between them. The indexed
  path that results lists the elements of the path in order, each under its id.
\<close>

definition key_at :: "int \<Rightarrow> edge_path \<Rightarrow> nat \<Rightarrow> int" where
  "key_at b ep p =
     (if p = 0 then fst (src_tgt_ids ep)
      else if p + 1 = length (path_nodes ep) then snd (src_tgt_ids ep)
      else b + int p - 1)"

definition mk_indexed_path :: "int \<Rightarrow> edge_path \<Rightarrow> indexed_path" where
  "mk_indexed_path b ep =
     map (\<lambda>p. (key_at b ep p, path_nodes ep ! p)) [0 ..< length (path_nodes ep)]"

text \<open>
  A well-formed path alternates block, pipe, block, ..., pipe, block, so its length is
  odd; a path of more than one element joins two different endpoints.
\<close>

definition wf_path :: "edge_path \<Rightarrow> bool" where
  "wf_path ep \<longleftrightarrow>
     odd (length (path_nodes ep))
     \<and> (1 < length (path_nodes ep) \<longrightarrow> fst (src_tgt_ids ep) \<noteq> snd (src_tgt_ids ep))"

text \<open>
  The indexed paths that remain after the second loop, as a map from the pair of endpoint
  ids: a later path with the same pair replaces an earlier one, while the counter moves
  on by the intermediate elements of every path.
\<close>

fun surviving :: "int \<Rightarrow> edge_path list \<Rightarrow> ((int \<times> int) \<rightharpoonup> indexed_path)" where
  "surviving n [] = Map.empty"
| "surviving n (ep # eps) =
     [src_tgt_ids ep \<mapsto> mk_indexed_path n ep] ++ surviving (n + int (n_mid ep)) eps"

text \<open>
  What the closed form of one indexed path needs: a non-empty path whose endpoint ids
  are below the counter, and differ when the path has more than one element.
\<close>

definition path_ok :: "int \<Rightarrow> edge_path \<Rightarrow> bool" where
  "path_ok n ep \<longleftrightarrow>
     path_nodes ep \<noteq> [] \<and> fst (src_tgt_ids ep) < n \<and> snd (src_tgt_ids ep) < n
     \<and> (1 < length (path_nodes ep) \<longrightarrow> fst (src_tgt_ids ep) \<noteq> snd (src_tgt_ids ep))"

text \<open>
  The entries of an indexed path that the last loop writes to the nodes: those at an
  even position, counting from \<open>i\<close>.
\<close>

definition even_entries :: "nat \<Rightarrow> 'a list \<Rightarrow> 'a list" where
  "even_entries i item = map snd (filter (\<lambda>(p, x). even p) (enumerate i item))"

text \<open>
  An endpoint id \<open>k\<close> is bound in the nodes to an endpoint element: to the first
  element of a path that declares \<open>k\<close> as its start id, or to the last element of a
  path that declares \<open>k\<close> as its end id.
\<close>

definition endpoint_bound :: "edge_path list \<Rightarrow> lattice_nodes \<Rightarrow> int \<Rightarrow> bool" where
  "endpoint_bound eps nodes k \<longleftrightarrow>
     list_ex (\<lambda>x. (fst (src_tgt_ids x) = k \<and> map_of nodes k = Some (hd (path_nodes x)))
                \<or> (snd (src_tgt_ids x) = k \<and> map_of nodes k = Some (last (path_nodes x))))
       eps"

text \<open>
  Example paths: three elements from node 0 to node 1; five elements from node 1 to
  node 2; three elements from node 0 to node 2 whose first element differs from the one
  of the first path; two elements; and five elements from node 0 to node 1.
\<close>

definition path_0_1 :: edge_path where
  "path_0_1 = \<lparr>src_tgt_ids = (0, 1),
     path_nodes = [((0, 0, 0), ''xxz''), ((0, 0, 1), ''zxo''), ((0, 0, 3), ''xzz'')]\<rparr>"

definition path_1_2 :: edge_path where
  "path_1_2 = \<lparr>src_tgt_ids = (1, 2),
     path_nodes = [((0, 0, 3), ''xzz''), ((0, 1, 3), ''zox''), ((0, 3, 3), ''xxz''),
                   ((1, 3, 3), ''oxz''), ((3, 3, 3), ''zxz'')]\<rparr>"

definition path_0_2 :: edge_path where
  "path_0_2 = \<lparr>src_tgt_ids = (0, 2),
     path_nodes = [((0, 0, 0), ''zzx''), ((1, 0, 0), ''ozx''), ((3, 0, 0), ''zxz'')]\<rparr>"

definition path_short :: edge_path where
  "path_short = \<lparr>src_tgt_ids = (0, 1),
     path_nodes = [((0, 0, 0), ''xxz''), ((0, 0, 3), ''xzz'')]\<rparr>"

definition path_0_1_long :: edge_path where
  "path_0_1_long = \<lparr>src_tgt_ids = (0, 1),
     path_nodes = [((0, 0, 0), ''xxz''), ((1, 0, 0), ''ozx''), ((3, 0, 0), ''zxz''),
                   ((3, 0, 1), ''zxo''), ((3, 0, 3), ''xzz'')]\<rparr>"

text \<open>
  The indexed path of any non-empty path, from the counter \<open>b\<close>: when the start id and
  the end id of a path of more than one element coincide, the assignment to the end id
  replaces the value of the first entry, and no entry is appended for the last element.
\<close>

definition gen_indexed_path :: "int \<Rightarrow> edge_path \<Rightarrow> indexed_path" where
  "gen_indexed_path b ep =
     (if fst (src_tgt_ids ep) = snd (src_tgt_ids ep) \<and> 1 < length (path_nodes ep)
      then (fst (src_tgt_ids ep), last (path_nodes ep))
           # map (\<lambda>p. (key_at b ep p, path_nodes ep ! p)) [1 ..< length (path_nodes ep) - 1]
      else mk_indexed_path b ep)"

text \<open>
  The indexed paths that remain after the second loop for any non-empty paths: as
  \<^const>\<open>surviving\<close>, without the assumption that the endpoint ids of a path differ.
\<close>

fun remaining :: "int \<Rightarrow> edge_path list \<Rightarrow> ((int \<times> int) \<rightharpoonup> indexed_path)" where
  "remaining n [] = Map.empty"
| "remaining n (ep # eps) =
     [src_tgt_ids ep \<mapsto> gen_indexed_path n ep] ++ remaining (n + int (n_mid ep)) eps"

text \<open>
  The entries that the last loop writes to the edges for an indexed path with the keys
  \<open>keys\<close>: for every odd position \<open>q\<close>, counting from \<open>i\<close>, the kind of entry \<open>q\<close>
  under the pair of the keys before and after it.
\<close>

definition edge_entries :: "int list \<Rightarrow> nat \<Rightarrow> indexed_path \<Rightarrow> lattice_edges" where
  "edge_entries keys i item =
     map (\<lambda>(q, x). ((keys ! (q - 1), keys ! (q + 1)), snd (snd x)))
       (filter (\<lambda>(q, x). odd q) (enumerate i item))"

text \<open>A path of four elements from node 0 to node 1.\<close>

definition path_0_1_four :: edge_path where
  "path_0_1_four = \<lparr>src_tgt_ids = (0, 1),
     path_nodes = [((0, 0, 0), ''xxz''), ((0, 1, 0), ''xoz''), ((0, 3, 0), ''xzx''),
                   ((0, 3, 1), ''xzo'')]\<rparr>"

section \<open>Beam maintenance\<close>

text \<open>
  The \<^verbatim>\<open>try\<close> block of \<^verbatim>\<open>prune_all_beams\<close> can only fail on a collection that is not of
  the annotated type \<^verbatim>\<open>List[NodeBeams]\<close> (something that cannot be iterated); on the
  typed collection modelled here no statement of the loop raises, so the \<^verbatim>\<open>except\<close>
  branch is never taken.
\<close>

definition prune_all_beams :: "node_beams list \<Rightarrow> coord list \<Rightarrow> node_beams list" where
  "prune_all_beams all_beams occupied_coords =
     fold (\<lambda>node_beams new_all_beams.
             let new_node_beams =
                   fold (\<lambda>single_beam acc.
                           if list_all (\<lambda>c. c \<notin> set occupied_coords) single_beam
                           then acc @ [single_beam] else acc)
                        node_beams []
             in if new_node_beams \<noteq> [] then new_all_beams @ [new_node_beams]
                else new_all_beams)
          all_beams []"

section \<open>Symmetry transforms\<close>

text \<open>\<^verbatim>\<open>str.index(c)\<close>: the position of the first occurrence, or \<^verbatim>\<open>ValueError\<close>.\<close>

fun str_index :: "char \<Rightarrow> string \<Rightarrow> nat option" where
  "str_index c [] = None"
| "str_index c (x # xs) = (if x = c then Some 0 else map_option Suc (str_index c xs))"

text \<open>Row \<open>i\<close> of \<^verbatim>\<open>np.eye(3, dtype=int)\<close>.\<close>

definition eye3 :: "nat \<Rightarrow> int list" where
  "eye3 i = map (\<lambda>j. if j = i then 1 else 0) [0, 1, 2]"

text \<open>
  One row of the rotation: \<^verbatim>\<open>entry += abs(int(element)) * pipe_type[j]\<close> for every
  \<^verbatim>\<open>j, element in enumerate(row)\<close>. The character \<^verbatim>\<open>pipe_type[j]\<close> is read for every
  \<open>j\<close>, also where the element is zero, so a string shorter than the row raises.
\<close>

fun row_entry :: "string \<Rightarrow> (nat \<times> int) list \<Rightarrow> error + string" where
  "row_entry pipe_type [] = Inr []"
| "row_entry pipe_type ((j, element) # rest) =
     (if j < length pipe_type
      then (case row_entry pipe_type rest of
              Inl e \<Rightarrow> Inl e
            | Inr entry \<Rightarrow> Inr (replicate (nat \<bar>element\<bar>) (pipe_type ! j) @ entry))
      else Inl IndexError)"

fun rotated_rows :: "string \<Rightarrow> int list list \<Rightarrow> error + string" where
  "rotated_rows pipe_type [] = Inr []"
| "rotated_rows pipe_type (row # rows) =
     (case row_entry pipe_type (enumerate 0 row) of
        Inl e \<Rightarrow> Inl e
      | Inr entry \<Rightarrow>
          (case rotated_rows pipe_type rows of
             Inl e \<Rightarrow> Inl e
           | Inr rotated_name \<Rightarrow> Inr (entry @ rotated_name)))"

text \<open>
  \<^verbatim>\<open>rotate_o_types\<close>. The statement \<^verbatim>\<open>pipe_type.replace("h", "")\<close> discards its result
  (Python strings are immutable), so \<^verbatim>\<open>pipe_type\<close> keeps its \<^verbatim>\<open>h\<close>. The list
  \<^verbatim>\<open>available_indexes.remove(...)\<close> raises \<^verbatim>\<open>ValueError\<close> when the index of \<^verbatim>\<open>o\<close> is not
  0, 1 or 2. The dictionary \<^verbatim>\<open>new_matrix\<close> is read at the keys 0, 1 and 2; in a
  dictionary display a later entry wins, so the association list holds the entries in
  reverse (\<^const>\<open>map_of\<close> takes the first match).
\<close>

definition rotate_o_types :: "string \<Rightarrow> error + string" where
  "rotate_o_types pipe_type =
     (let h_flag = (CHR ''h'' \<in> set pipe_type) in
      case str_index CHR ''o'' pipe_type of
        None \<Rightarrow> Inl ValueError
      | Some o_index \<Rightarrow>
          if o_index \<notin> set [0, 1, 2] then Inl ValueError
          else
            let available_indexes = remove1 o_index [0, 1, 2];
                new_matrix = map_of
                  [(available_indexes ! 1, eye3 (available_indexes ! 0)),
                   (available_indexes ! 0, eye3 (available_indexes ! 1)),
                   (o_index, eye3 o_index)]
            in case (new_matrix 0, new_matrix 1, new_matrix 2) of
                 (Some r0, Some r1, Some r2) \<Rightarrow>
                   (case rotated_rows pipe_type [r0, r1, r2] of
                      Inl e \<Rightarrow> Inl e
                    | Inr rotated_name \<Rightarrow>
                        Inr (if h_flag then rotated_name @ ''h'' else rotated_name))
               | _ \<Rightarrow> Inl KeyError)"

text \<open>
  \<^verbatim>\<open>adjust_hadamards_direction\<close>: a lookup in the table, and otherwise in the inverted
  table, where a missing key raises \<^verbatim>\<open>KeyError\<close>.
\<close>

definition hdm_equivalences :: "(string \<times> string) list" where
  "hdm_equivalences = [(''zxoh'', ''xzoh''), (''xozh'', ''zoxh''), (''oxzh'', ''ozxh'')]"

definition adjust_hadamards_direction :: "string \<Rightarrow> error + string" where
  "adjust_hadamards_direction pipe_type =
     (if pipe_type \<in> set (map fst hdm_equivalences)
      then (case map_of hdm_equivalences pipe_type of
              Some v \<Rightarrow> Inr v | None \<Rightarrow> Inl KeyError)
      else
        let inv_equivalences = map (\<lambda>(key, value). (value, key)) hdm_equivalences
        in case map_of inv_equivalences pipe_type of
             Some v \<Rightarrow> Inr v | None \<Rightarrow> Inl KeyError)"

text \<open>The six valid Hadamard kinds.\<close>

definition hadamard_kinds :: "string list" where
  "hadamard_kinds = [''zxoh'', ''xzoh'', ''xozh'', ''zoxh'', ''oxzh'', ''ozxh'']"

section \<open>Properties\<close>

subsection \<open>Obstruction checker\<close>

lemma snd_check_unobstructed:
  "snd (check_unobstructed s t occ ab n) = synthesized_beam s t n"
  by (simp add: check_unobstructed_def Let_def)

lemma coord_never_in_all_beams: "\<not> coord_in_all_beams c all_beams"
  by (auto simp: coord_in_all_beams_def obj_of_node_beams_def)

text \<open>
  With a non-empty \<^verbatim>\<open>occupied\<close>, the verdict depends on \<^verbatim>\<open>occupied\<close> alone: a tuple is
  never equal to an element of a \<^verbatim>\<open>List[NodeBeams]\<close>.
\<close>

lemma check_unobstructed_verdict:
  "occ \<noteq> [] \<Longrightarrow>
   fst (check_unobstructed s t occ ab n) = (\<not> list_ex (\<lambda>c. c \<in> set occ) (synthesized_beam s t n))"
  by (simp add: check_unobstructed_def Let_def coord_never_in_all_beams)

text \<open>
  C1 (fails on the code): with the non-empty occupied list \<open>[(9, 9, 9)]\<close> and the single
  reserved beam \<open>[(1, 0, 0)]\<close>, the synthesized cell \<open>(1, 0, 0)\<close> lies inside a beam of
  \<^verbatim>\<open>all_beams\<close> and is not occupied; \<^verbatim>\<open>check_unobstructed\<close> nevertheless answers true
  (unobstructed). It does return the synthesized beam.
\<close>

theorem C1_check_unobstructed_misses_beams:
  "check_unobstructed (0, 0, 0) (1, 0, 0) [(9, 9, 9)] [[[(1, 0, 0)]]] 2 = (True, [(1, 0, 0)])
   \<and> inside_some_beam (1, 0, 0) [[[(1, 0, 0)]]]"
  by (simp add: check_unobstructed_def synthesized_beam_def unit_direction_def
      coord_in_all_beams_def obj_of_node_beams_def obj_of_beam_def inside_some_beam_def
      upto.simps)

text \<open>
  C5: called with an empty \<^verbatim>\<open>occupied\<close> list, \<^verbatim>\<open>check_unobstructed\<close> returns the verdict
  true, for every source, target, beam collection and beam length.
\<close>

theorem C5_empty_occupied_unobstructed:
  "fst (check_unobstructed source_coord target_coord [] all_beams length_of_beams) = True"
  by (simp add: check_unobstructed_def Let_def)

subsection \<open>The move test\<close>

lemma is_move_allowed_manhattan: "is_move_allowed s t \<longleftrightarrow> manhattan s t mod 3 = 0"
  by (simp add: is_move_allowed_def manhattan_def split: prod.splits)

lemma manhattan_nonneg: "0 \<le> manhattan s t"
  by (simp add: manhattan_def split: prod.splits)

text \<open>
  C3 (as amended): \<^verbatim>\<open>is_move_allowed\<close> is true exactly when the Manhattan distance is a
  multiple of 3, zero included: \<open>3 * k\<close> for some \<open>k \<ge> 0\<close>.
\<close>

theorem C3_is_move_allowed_multiple_of_3:
  "is_move_allowed source target = (\<exists>k\<ge>0. manhattan source target = 3 * k)"
proof
  assume "is_move_allowed source target"
  then have "manhattan source target mod 3 = 0"
    by (simp add: is_move_allowed_manhattan)
  then have "manhattan source target = 3 * (manhattan source target div 3)"
    by presburger
  moreover have "0 \<le> manhattan source target div 3"
    using manhattan_nonneg [of source target] by simp
  ultimately show "\<exists>k\<ge>0. manhattan source target = 3 * k"
    by blast
next
  assume "\<exists>k\<ge>0. manhattan source target = 3 * k"
  then show "is_move_allowed source target"
    by (auto simp: is_move_allowed_manhattan)
qed

text \<open>
  C3 (the claim as stated fails): for equal source and target the distance is 0, not a
  positive multiple of 3, and \<^verbatim>\<open>is_move_allowed\<close> returns true.
\<close>

theorem C3_counterexample_same_cell:
  "is_move_allowed (0, 0, 0) (0, 0, 0) = True \<and> manhattan (0, 0, 0) (0, 0, 0) = 0"
  by (simp add: is_move_allowed_def manhattan_def)

subsection \<open>Beam maintenance\<close>

lemma fold_append_if:
  "fold (\<lambda>x acc. if P x then acc @ [x] else acc) xs acc0 = acc0 @ filter P xs"
  by (induction xs arbitrary: acc0) auto

lemma fold_append_nonempty:
  "fold (\<lambda>x acc. let y = f x in if y \<noteq> [] then acc @ [y] else acc) xs acc0 =
     acc0 @ filter (\<lambda>y. y \<noteq> []) (map f xs)"
  by (induction xs arbitrary: acc0) (auto simp: Let_def)

text \<open>The two loops of \<^verbatim>\<open>prune_all_beams\<close> are a filter inside a filter.\<close>

lemma prune_all_beams_filter:
  "prune_all_beams all_beams occ =
     filter (\<lambda>nb. nb \<noteq> []) (map (filter (list_all (\<lambda>c. c \<notin> set occ))) all_beams)"
  unfolding prune_all_beams_def fold_append_if
  using fold_append_nonempty [of "filter (list_all (\<lambda>c. c \<notin> set occ))" all_beams "[]"]
  by simp

text \<open>
  C7: \<^verbatim>\<open>prune_all_beams\<close> is idempotent: pruning an already pruned collection against
  the same occupied list returns the same collection.
\<close>

theorem C7_prune_all_beams_idempotent:
  "prune_all_beams (prune_all_beams all_beams occupied) occupied =
     prune_all_beams all_beams occupied"
  unfolding prune_all_beams_filter
  by (induction all_beams) auto

subsection \<open>Symmetry transforms\<close>

text \<open>
  C8: on each of the six valid Hadamard kinds \<^verbatim>\<open>adjust_hadamards_direction\<close> succeeds and
  applying it to its result gives the kind back; on every other string it fails (with
  \<^verbatim>\<open>KeyError\<close>).
\<close>

theorem C8_adjust_hadamards_involution:
  "(k \<in> set hadamard_kinds \<longrightarrow>
      (\<exists>k'. adjust_hadamards_direction k = Inr k' \<and> adjust_hadamards_direction k' = Inr k))
   \<and> (k \<notin> set hadamard_kinds \<longrightarrow> adjust_hadamards_direction k = Inl KeyError)"
  by (auto simp: hadamard_kinds_def adjust_hadamards_direction_def hdm_equivalences_def)

text \<open>C8 at the valid kind \<open>zxoh\<close> and at the invalid string \<open>zxo\<close>.\<close>

theorem C8_witness:
  "(\<exists>k'. adjust_hadamards_direction ''zxoh'' = Inr k'
          \<and> adjust_hadamards_direction k' = Inr ''zxoh'')
   \<and> adjust_hadamards_direction ''zxo'' = Inl KeyError"
  using C8_adjust_hadamards_involution [of "''zxoh''"]
    C8_adjust_hadamards_involution [of "''zxo''"]
  by (simp add: hadamard_kinds_def)

lemma length3E: "length base = 3 \<Longrightarrow> \<exists>a b c. base = [a, b, c]"
  by (cases base; cases "tl base"; cases "tl (tl base)") auto

text \<open>
  One rotation, in closed form, for three characters with exactly one \<open>o\<close> followed by
  any rest: the axis holding \<open>o\<close> stays, the other two swap, the rest is dropped, and
  an \<open>h\<close> is appended when the string holds one anywhere.
\<close>

lemma rotate_any:
  assumes "count_list [a, b, c] CHR ''o'' = 1"
  shows "rotate_o_types ([a, b, c] @ rest) =
     Inr ((if a = CHR ''o'' then [a, c, b] else if b = CHR ''o'' then [c, b, a] else [b, a, c])
          @ (if CHR ''h'' \<in> set [a, b, c] \<union> set rest then ''h'' else []))"
  using assms
  by (auto simp: rotate_o_types_def eye3_def Let_def split: if_splits)

text \<open>
  C9 (as amended): let the first three characters \<open>base\<close> of a string hold exactly one
  \<open>o\<close>, and let \<open>rest\<close> be what follows them. Then \<^verbatim>\<open>rotate_o_types\<close> succeeds, and
  rotating its result gives \<open>base\<close> followed by \<open>h\<close> when the string holds an \<open>h\<close>
  anywhere, and \<open>base\<close> alone otherwise. Hence rotating twice returns the original
  string exactly when it is three axis characters followed by the marker \<open>h\<close>, or three
  axis characters none of which is \<open>h\<close>.
\<close>

theorem C9_rotate_o_types_involution:
  assumes "length base = 3" and "count_list base CHR ''o'' = 1"
  shows "(\<exists>k'. rotate_o_types (base @ rest) = Inr k'
            \<and> rotate_o_types k' =
                Inr (base @ (if CHR ''h'' \<in> set base \<union> set rest then ''h'' else [])))
       \<and> ((\<exists>k'. rotate_o_types (base @ rest) = Inr k' \<and> rotate_o_types k' = Inr (base @ rest))
            \<longleftrightarrow> rest = ''h'' \<or> (rest = [] \<and> CHR ''h'' \<notin> set base))"
proof -
  from assms(1) obtain a b c where base: "base = [a, b, c]"
    using length3E by blast
  define p where
    "p = (if a = CHR ''o'' then [a, c, b] else if b = CHR ''o'' then [c, b, a] else [b, a, c])"
  define hs where "hs = (if CHR ''h'' \<in> set base \<union> set rest then ''h'' else [])"
  have "length p = 3"
    by (simp add: p_def)
  then obtain a' b' c' where p: "p = [a', b', c']"
    using length3E by blast
  have cnt: "count_list [a', b', c'] CHR ''o'' = 1"
    using assms(2) p by (auto simp: base p_def split: if_splits)
  have hset: "CHR ''h'' \<in> set [a', b', c'] \<longleftrightarrow> CHR ''h'' \<in> set base"
    using p by (auto simp: base p_def split: if_splits)
  have again:
    "(if a' = CHR ''o'' then [a', c', b'] else if b' = CHR ''o'' then [c', b', a']
      else [b', a', c']) = base"
    using assms(2) p by (auto simp: base p_def split: if_splits)
  have first: "rotate_o_types (base @ rest) = Inr (p @ hs)"
    using rotate_any [of a b c rest] assms(2) by (simp add: base p_def hs_def)
  have "CHR ''h'' \<in> set [a', b', c'] \<union> set hs \<longleftrightarrow> CHR ''h'' \<in> set base \<union> set rest"
    using hset by (auto simp: hs_def)
  then have second: "rotate_o_types (p @ hs) = Inr (base @ hs)"
    using rotate_any [OF cnt, of hs] again unfolding p by (simp add: hs_def)
  have "base @ hs = base @ rest \<longleftrightarrow> rest = ''h'' \<or> (rest = [] \<and> CHR ''h'' \<notin> set base)"
    by (auto simp: hs_def)
  then show ?thesis
    using first second unfolding hs_def by auto
qed

text \<open>
  C9 (the claim as stated fails): the first three characters of \<open>ohx\<close> hold exactly one
  \<open>o\<close>, and there is no trailing marker; its rotation is \<open>oxhh\<close>, whose rotation is
  \<open>ohxh\<close>, not \<open>ohx\<close>. The \<open>h\<close> on an axis is taken for the Hadamard marker.
\<close>

theorem C9_counterexample_axis_h:
  "length ''ohx'' = 3 \<and> count_list ''ohx'' CHR ''o'' = 1
   \<and> rotate_o_types ''ohx'' = Inr ''oxhh'' \<and> rotate_o_types ''oxhh'' = Inr ''ohxh''"
  by (simp add: rotate_o_types_def eye3_def)

text \<open>
  C9 at the Hadamard kind \<open>zxoh\<close>, whose rotation is \<open>xzoh\<close>, and at the kind \<open>zxo\<close>,
  whose rotation is \<open>xzo\<close>.
\<close>

theorem C9_witness:
  "length ''zxo'' = 3 \<and> count_list ''zxo'' CHR ''o'' = 1
   \<and> (\<exists>k'. rotate_o_types ''zxoh'' = Inr k' \<and> rotate_o_types k' = Inr ''zxoh'')
   \<and> (\<exists>k'. rotate_o_types ''zxo'' = Inr k' \<and> rotate_o_types k' = Inr ''zxo'')"
  using C9_rotate_o_types_involution [of "''zxo''" "''h''"]
    C9_rotate_o_types_involution [of "''zxo''" "[]"]
  by simp

subsection \<open>Candidate generator: double moves\<close>

lemma double_moves_closed:
  "double_moves (sx, sy, sz) =
     [(sx - 3, sy - 3, sz), (sx - 3, sy + 3, sz),
      (sx - 3, sy, sz - 3), (sx - 3, sy, sz + 3), (sx + 3, sy, sz - 3), (sx + 3, sy, sz + 3),
      (sx, sy - 3, sz - 3), (sx, sy - 3, sz + 3), (sx, sy + 3, sz - 3), (sx, sy + 3, sz + 3),
      (sx + 3, sy - 3, sz), (sx + 3, sy + 3, sz)]"
  by (simp add: double_moves_def set_add_def)

lemma abs03: "\<bar>d\<bar> \<in> {0, 3} \<longleftrightarrow> d = 0 \<or> d = 3 \<or> d = - 3" for d :: int
  by auto

lemma two_axis_offset_cases:
  "two_axis_offset (dx, dy, dz) \<longleftrightarrow>
     (dx, dy, dz) \<in> {(- 3, - 3, 0), (- 3, 3, 0), (3, - 3, 0), (3, 3, 0),
                     (- 3, 0, - 3), (- 3, 0, 3), (3, 0, - 3), (3, 0, 3),
                     (0, - 3, - 3), (0, - 3, 3), (0, 3, - 3), (0, 3, 3)}"
  unfolding two_axis_offset_def abs03 by (simp split: if_splits) auto

lemma two_axis_offsets:
  "{d. two_axis_offset d} =
     {(- 3, - 3, 0), (- 3, 3, 0), (3, - 3, 0), (3, 3, 0),
      (- 3, 0, - 3), (- 3, 0, 3), (3, 0, - 3), (3, 0, 3),
      (0, - 3, - 3), (0, - 3, 3), (0, 3, - 3), (0, 3, 3)}"
proof -
  have "two_axis_offset d \<longleftrightarrow>
     d \<in> {(- 3, - 3, 0), (- 3, 3, 0), (3, - 3, 0), (3, 3, 0),
          (- 3, 0, - 3), (- 3, 0, 3), (3, 0, - 3), (3, 0, 3),
          (0, - 3, - 3), (0, - 3, 3), (0, 3, - 3), (0, 3, 3)}" for d
    by (cases d) (simp only: two_axis_offset_cases)
  then show ?thesis
    by (simp only: Collect_mem_eq)
qed

lemma set_double_moves:
  "set (double_moves (sx, sy, sz)) =
     (\<lambda>(dx, dy, dz). (sx + dx, sy + dy, sz + dz)) ` {d. two_axis_offset d}"
  unfolding two_axis_offsets double_moves_closed by (simp add: insert_commute)

lemma manhattan_double_moves:
  "list_all (\<lambda>c. manhattan (sx, sy, sz) c = 6) (double_moves (sx, sy, sz))"
  by (simp add: double_moves_closed manhattan_def)

lemma distinct_double_moves: "distinct (double_moves (sx, sy, sz))"
  by (simp add: double_moves_closed)

text \<open>
  C6: for every source \<open>(sx, sy, sz)\<close>, the step 6 and an empty occupied list
  \<^verbatim>\<open>generate_tentative_target_positions\<close> returns 12 pairwise distinct coordinates, each
  at Manhattan distance 6 from the source, and they are exactly the source moved by
  every combination of \<open>\<plusminus>3\<close> offsets on exactly two of the three axes.
\<close>

theorem C6_double_moves:
  "\<exists>r. generate_tentative_target_positions rnd (sx, sy, sz) 6 [] = Inr r
       \<and> length r = 12 \<and> distinct r
       \<and> list_all (\<lambda>c. manhattan (sx, sy, sz) c = 6) r
       \<and> set r = (\<lambda>(dx, dy, dz). (sx + dx, sy + dy, sz + dz)) ` {d. two_axis_offset d}"
proof -
  have "generate_tentative_target_positions rnd (sx, sy, sz) 6 [] =
      Inr (double_moves (sx, sy, sz))"
    by (simp add: generate_tentative_target_positions_def)
  moreover have "length (double_moves (sx, sy, sz)) = 12"
    by (simp add: double_moves_closed)
  ultimately show ?thesis
    using distinct_double_moves manhattan_double_moves set_double_moves by blast
qed

subsection \<open>Candidate generator: the randomized search\<close>

lemma set_set_add [simp]: "set (set_add x xs) = insert x (set xs)"
  by (auto simp: set_add_def)

lemma distinct_set_add [simp]: "distinct (set_add x xs) = distinct xs"
  by (auto simp: set_add_def)

lemma length_set_add: "length (set_add x xs) \<le> Suc (length xs)"
  by (simp add: set_add_def)

text \<open>The ranges the search draws from are never empty, and bound the move.\<close>

lemma range3_nonempty: "0 \<le> r \<Longrightarrow> range3 (- r) (r + 1) \<noteq> []"
  by (simp add: range3_def)

lemma range3_abs:
  assumes "0 \<le> r" "x \<in> set (range3 (- r) (r + 1))"
  shows "\<bar>x\<bar> \<le> r"
proof -
  from assms(2) obtain i where i: "i < nat ((r + 1 - (- r) + 2) div 3)" and x: "x = - r + 3 * int i"
    by (auto simp: range3_def)
  from i have "int i < (2 * r + 3) div 3"
    by (simp add: algebra_simps)
  then have "3 * int i \<le> 2 * r"
    by presburger
  with x assms(1) show ?thesis
    by linarith
qed

lemma choice_mem: "xs \<noteq> [] \<Longrightarrow> \<exists>x \<in> set xs. choice r xs = Inr x"
  by (simp add: choice_def)

lemma add_if_valid_idem:
  "add_if_valid s step occ m (add_if_valid s step occ m vt) = add_if_valid s step occ m vt"
  by (auto simp: add_if_valid_def set_add_def split: prod.splits)

lemma length_add_if_valid: "length (add_if_valid s step occ m vt) \<le> Suc (length vt)"
  by (auto simp: add_if_valid_def set_add_def split: prod.splits)

lemma distinct_add_if_valid: "distinct vt \<Longrightarrow> distinct (add_if_valid s step occ m vt)"
  by (auto simp: add_if_valid_def split: prod.splits)

lemma set_add_if_valid:
  "set (add_if_valid s step occ m vt) \<subseteq> set vt \<union> {c. manhattan s c = step \<and> c \<notin> set occ}"
  by (auto simp: add_if_valid_def manhattan_def split: prod.splits)

lemma good_add_if_valid:
  "good_targets s step occ vt \<Longrightarrow> good_targets s step occ (add_if_valid s step occ m vt)"
  using set_add_if_valid [of s step occ m vt]
  by (auto simp: good_targets_def distinct_add_if_valid list_all_iff)

lemma fold_add_if_valid:
  "good_targets s step occ vt \<Longrightarrow>
     good_targets s step occ (fold (add_if_valid s step occ) ms vt)
     \<and> length (fold (add_if_valid s step occ) ms vt) \<le> length vt + length ms"
proof (induction ms arbitrary: vt)
  case Nil
  then show ?case by simp
next
  case (Cons m ms)
  from Cons.IH [OF good_add_if_valid [OF Cons.prems, of m]]
  show ?case
    using length_add_if_valid [of s step occ m vt] by auto
qed

text \<open>
  One attempt never raises, keeps the invariant and adds at most 6 coordinates: its first
  addition is repeated by the first of the six permutations.
\<close>

lemma attempt_ok:
  assumes "0 \<le> step" "good_targets s step occ vt"
  shows "\<exists>vt'. attempt rnd n s step occ vt = Inr vt' \<and> good_targets s step occ vt'
           \<and> length vt' \<le> length vt + 6"
proof -
  obtain move_x where mx: "choice (rnd (2 * n)) (range3 (- step) (step + 1)) = Inr move_x"
      and mx_in: "move_x \<in> set (range3 (- step) (step + 1))"
    using choice_mem [OF range3_nonempty [OF assms(1)]] by blast
  define rem where "rem = step - \<bar>move_x\<bar>"
  have rem: "0 \<le> rem"
    using range3_abs [OF assms(1) mx_in] by (simp add: rem_def)
  obtain move_y where my: "choice (rnd (2 * n + 1)) (range3 (- rem) (rem + 1)) = Inr move_y"
    using choice_mem [OF range3_nonempty [OF rem]] by blast
  define m0 where "m0 = (move_x, move_y, rem - \<bar>move_y\<bar>)"
  define ms where "ms = [(move_x, rem - \<bar>move_y\<bar>, move_y),
                      (move_y, move_x, rem - \<bar>move_y\<bar>), (move_y, rem - \<bar>move_y\<bar>, move_x),
                      (rem - \<bar>move_y\<bar>, move_x, move_y), (rem - \<bar>move_y\<bar>, move_y, move_x)]"
  define vt1 where "vt1 = add_if_valid s step occ m0 vt"
  have res: "attempt rnd n s step occ vt = Inr (fold (add_if_valid s step occ) ms vt1)"
    using mx my
    by (simp add: attempt_def Let_def rem_def [symmetric] m0_def [symmetric] vt1_def [symmetric]
        add_if_valid_idem ms_def)
  have g1: "good_targets s step occ vt1"
    unfolding vt1_def by (rule good_add_if_valid [OF assms(2)])
  have "length vt1 \<le> length vt + 1"
    unfolding vt1_def using length_add_if_valid [of s step occ m0 vt] by simp
  moreover have "length ms = 5"
    by (simp add: ms_def)
  ultimately show ?thesis
    using res fold_add_if_valid [OF g1, of ms] by auto
qed

lemma search_loop_ok:
  "0 \<le> step \<Longrightarrow> good_targets s step occ vt \<Longrightarrow> length vt \<le> 17 \<Longrightarrow> n \<le> 500 \<Longrightarrow>
     \<exists>r a. search_loop rnd s step occ vt n = Inr (r, a) \<and> good_targets s step occ r
       \<and> length r \<le> 17 \<and> a \<le> 500"
proof (induction rnd s step occ vt n rule: search_loop.induct)
  case (1 rnd s step occ vt n)
  show ?case
  proof (cases "length vt < 12 \<and> n < 500")
    case True
    obtain vt' where a: "attempt rnd n s step occ vt = Inr vt'" and g: "good_targets s step occ vt'"
      and l: "length vt' \<le> length vt + 6"
      using attempt_ok [OF "1.prems"(1,2)] by blast
    have "\<exists>r a. search_loop rnd s step occ vt' (n + 1) = Inr (r, a) \<and> good_targets s step occ r
       \<and> length r \<le> 17 \<and> a \<le> 500"
      using "1.IH" [OF True a "1.prems"(1) g] l True by simp
    then show ?thesis
      using True a by (subst search_loop.simps) simp
  next
    case False
    then show ?thesis
      using "1.prems" by (subst search_loop.simps) auto
  qed
qed

text \<open>
  C2 (as amended): for every source, every step greater than 9 that is a multiple of 3,
  every occupied list and every outcome of the random draws, the randomized search
  returns (it does not raise), makes at most 500 attempts, and returns at most 17
  pairwise distinct coordinates, each at Manhattan distance exactly \<open>step\<close> from the
  source and absent from the occupied list. The bound is 17 and not 12: the loop looks
  at the number found only before an attempt, so it can start one with 11 found, and
  one attempt adds up to 6.
\<close>

theorem C2_randomized_search_bounds:
  assumes "9 < step" and "step mod 3 = 0"
  shows "\<exists>r a. search_loop rnd s step occupied [] 0 = Inr (r, a)
           \<and> generate_tentative_target_positions rnd s step occupied = Inr r
           \<and> length r \<le> 17 \<and> a \<le> 500 \<and> distinct r
           \<and> (\<forall>c \<in> set r. manhattan s c = step \<and> c \<notin> set occupied)"
proof -
  have "good_targets s step occupied []"
    by (simp add: good_targets_def)
  then obtain r a where ra: "search_loop rnd s step occupied [] 0 = Inr (r, a)"
      and g: "good_targets s step occupied r" and l: "length r \<le> 17" "a \<le> 500"
    using search_loop_ok [of step s occupied "[]" 0 rnd] assms(1) by auto
  have "generate_tentative_target_positions rnd s step occupied = Inr r"
    using assms ra by (simp add: generate_tentative_target_positions_def)
  then show ?thesis
    using ra g l by (auto simp: good_targets_def list_all_iff)
qed

text \<open>
  C2 (the claim as stated fails): for the source \<open>(0, 0, 0)\<close>, the step 12, the occupied
  list \<open>[(0, 3, 9)]\<close> and the draws \<^const>\<open>draws_17\<close>, three attempts find 5, 6 and 6 new
  coordinates, and 17 candidates are returned, more than 12.
\<close>

theorem C2_counterexample_17_candidates:
  "(9 :: int) < 12 \<and> (12 :: int) mod 3 = 0
   \<and> map_sum id length (generate_tentative_target_positions draws_17 (0, 0, 0) 12 [(0, 3, 9)])
       = Inr 17"
  by code_simp

text \<open>C2 at the same input.\<close>

theorem C2_witness:
  "(9 :: int) < 12 \<and> (12 :: int) mod 3 = 0
   \<and> (\<exists>r a. search_loop draws_17 (0, 0, 0) 12 [(0, 3, 9)] [] 0 = Inr (r, a)
           \<and> generate_tentative_target_positions draws_17 (0, 0, 0) 12 [(0, 3, 9)] = Inr r
           \<and> length r \<le> 17 \<and> a \<le> 500 \<and> distinct r
           \<and> (\<forall>c \<in> set r. manhattan (0, 0, 0) c = 12 \<and> c \<notin> set [(0, 3, 9)]))"
  using C2_randomized_search_bounds [of 12 draws_17 "(0, 0, 0)" "[(0, 3, 9)]"]
  by simp

subsection \<open>Lattice assembler: the ids of one path\<close>

lemma update_append: "k \<notin> fst ` set al \<Longrightarrow> AList.update k v al = al @ [(k, v)]"
  by (induction al) auto

lemma max_endpoint_fold_ge:
  "m0 \<le> fold (\<lambda>ep m. max (max m (fst (src_tgt_ids ep))) (snd (src_tgt_ids ep))) eps m0"
proof (induction eps arbitrary: m0)
  case Nil
  show ?case by simp
next
  case (Cons x eps)
  have "m0 \<le> max (max m0 (fst (src_tgt_ids x))) (snd (src_tgt_ids x))"
    by simp
  also have "\<dots> \<le> fold (\<lambda>ep m. max (max m (fst (src_tgt_ids ep))) (snd (src_tgt_ids ep))) eps
      (max (max m0 (fst (src_tgt_ids x))) (snd (src_tgt_ids x)))"
    by (rule Cons.IH)
  finally show ?case by simp
qed

lemma max_endpoint_fold_mem:
  "ep \<in> set eps \<Longrightarrow>
   fst (src_tgt_ids ep) \<le> fold (\<lambda>ep m. max (max m (fst (src_tgt_ids ep))) (snd (src_tgt_ids ep))) eps m0
   \<and> snd (src_tgt_ids ep) \<le> fold (\<lambda>ep m. max (max m (fst (src_tgt_ids ep))) (snd (src_tgt_ids ep))) eps m0"
proof (induction eps arbitrary: m0)
  case Nil
  then show ?case by simp
next
  case (Cons x eps)
  show ?case
  proof (cases "ep = x")
    case True
    then show ?thesis
      using max_endpoint_fold_ge [of "max (max m0 (fst (src_tgt_ids x))) (snd (src_tgt_ids x))" eps]
      by auto
  next
    case False
    then show ?thesis using Cons by auto
  qed
qed

lemma endpoints_le_max:
  "ep \<in> set eps \<Longrightarrow>
     fst (src_tgt_ids ep) \<le> max_endpoint_id eps \<and> snd (src_tgt_ids ep) \<le> max_endpoint_id eps"
  unfolding max_endpoint_id_def by (rule max_endpoint_fold_mem)

text \<open>
  The loop over the intermediate elements appends one entry per element, because the
  counter is above the start id and grows.
\<close>

lemma index_path_prefix:
  assumes "fst (src_tgt_ids ep) < n" "1 \<le> j" "j + 1 \<le> length (path_nodes ep)"
  shows "fold (\<lambda>i (indexed_path, next_id).
                (AList.update next_id (path_nodes ep ! i) indexed_path, next_id + 1))
           [1 ..< j] ([(fst (src_tgt_ids ep), path_nodes ep ! 0)], n) =
         (map (\<lambda>p. (key_at n ep p, path_nodes ep ! p)) [0 ..< j], n + int j - 1)"
  using assms(2,3)
proof (induction j rule: nat_induct_at_least)
  case base
  show ?case by (simp add: key_at_def)
next
  case (Suc j)
  have fresh: "n + int j - 1 \<notin> fst ` set (map (\<lambda>p. (key_at n ep p, path_nodes ep ! p)) [0 ..< j])"
    using assms(1) Suc.prems by (auto simp: key_at_def split: if_splits)
  have kj: "key_at n ep j = n + int j - 1"
    using Suc by (simp add: key_at_def)
  show ?case
    using Suc fresh by (simp add: update_append kj)
qed

text \<open>
  One edge path, in closed form: with both endpoint ids below the counter (and different
  from one another when the path has more than one element) the indexed path lists the
  elements of the path in order, each under its \<^const>\<open>key_at\<close>.
\<close>

lemma index_path_closed:
  assumes "path_nodes ep \<noteq> []" "fst (src_tgt_ids ep) < n" "snd (src_tgt_ids ep) < n"
    and "1 < length (path_nodes ep) \<longrightarrow> fst (src_tgt_ids ep) \<noteq> snd (src_tgt_ids ep)"
  shows "index_path n ep = Inr (mk_indexed_path n ep, n + int (n_mid ep))"
proof (cases "length (path_nodes ep) = 1")
  case True
  then show ?thesis
    using assms(1) by (simp add: index_path_def mk_indexed_path_def n_mid_def key_at_def split: prod.splits)
next
  case False
  define L where "L = length (path_nodes ep)"
  have "0 < length (path_nodes ep)"
    using assms(1) by simp
  with False have L: "2 \<le> L"
    unfolding L_def by linarith
  have pre: "fold (\<lambda>i (indexed_path, next_id).
                (AList.update next_id (path_nodes ep ! i) indexed_path, next_id + 1))
           [1 ..< L - 1] ([(fst (src_tgt_ids ep), path_nodes ep ! 0)], n) =
         (map (\<lambda>p. (key_at n ep p, path_nodes ep ! p)) [0 ..< L - 1], n + int (L - 1) - 1)"
    using index_path_prefix [OF assms(2), of "L - 1"] L by (simp add: L_def)
  have fresh: "snd (src_tgt_ids ep) \<notin> fst ` set (map (\<lambda>p. (key_at n ep p, path_nodes ep ! p)) [0 ..< L - 1])"
    using assms(3,4) L by (auto simp: key_at_def L_def split: if_splits)
  have lst: "last (path_nodes ep) = path_nodes ep ! (L - 1)"
    using assms(1) by (simp add: last_conv_nth L_def)
  have kl: "key_at n ep (L - 1) = snd (src_tgt_ids ep)"
    using L by (auto simp: key_at_def L_def)
  have upt: "[0 ..< L] = [0 ..< L - 1] @ [L - 1]"
    using L by (metis Suc_diff_1 upt_Suc_append zero_le less_le_trans zero_less_numeral)
  have "mk_indexed_path n ep =
      map (\<lambda>p. (key_at n ep p, path_nodes ep ! p)) [0 ..< L - 1] @ [(snd (src_tgt_ids ep), last (path_nodes ep))]"
    unfolding mk_indexed_path_def L_def [symmetric] using kl lst by (subst upt) simp
  moreover have "n + int (L - 1) - 1 = n + int (n_mid ep)"
    using L by (simp add: n_mid_def L_def)
  moreover obtain s e where ids: "src_tgt_ids ep = (s, e)"
    by (cases "src_tgt_ids ep")
  ultimately show ?thesis
    using assms(1) L pre fresh
    by (simp add: index_path_def Let_def L_def [symmetric] update_append)
qed

subsection \<open>Lattice assembler: the indexed paths\<close>

lemma path_ok_mono: "path_ok n ep \<Longrightarrow> n \<le> n' \<Longrightarrow> path_ok n' ep"
  by (auto simp: path_ok_def)

lemma total_mid_simps [simp]:
  "total_mid [] = 0" "total_mid (ep # eps) = n_mid ep + total_mid eps"
  "total_mid (xs @ ys) = total_mid xs + total_mid ys"
  by (simp_all add: total_mid_def)

text \<open>
  The second loop never raises on such paths, moves the counter by the number of all
  intermediate elements, and leaves the indexed paths described by \<^const>\<open>surviving\<close>.
\<close>

lemma index_paths_closed:
  "list_all (path_ok n0) eps \<Longrightarrow>
     \<exists>ips. index_paths eps ips0 n0 = Inr (ips, n0 + int (total_mid eps))
       \<and> map_of ips = map_of ips0 ++ surviving n0 eps
       \<and> (distinct (map fst ips0) \<longrightarrow> distinct (map fst ips))"
proof (induction eps arbitrary: ips0 n0)
  case Nil
  show ?case by simp
next
  case (Cons ep eps)
  have ok: "path_ok n0 ep"
    using Cons.prems by simp
  have ip: "index_path n0 ep = Inr (mk_indexed_path n0 ep, n0 + int (n_mid ep))"
    using ok by (intro index_path_closed) (auto simp: path_ok_def)
  have "list_all (path_ok (n0 + int (n_mid ep))) eps"
    using Cons.prems by (auto simp: list_all_iff intro: path_ok_mono)
  from Cons.IH [OF this, of "AList.update (src_tgt_ids ep) (mk_indexed_path n0 ep) ips0"]
  obtain ips where ips:
    "index_paths eps (AList.update (src_tgt_ids ep) (mk_indexed_path n0 ep) ips0)
        (n0 + int (n_mid ep)) = Inr (ips, n0 + int (n_mid ep) + int (total_mid eps))"
    "map_of ips = map_of (AList.update (src_tgt_ids ep) (mk_indexed_path n0 ep) ips0)
        ++ surviving (n0 + int (n_mid ep)) eps"
    "distinct (map fst (AList.update (src_tgt_ids ep) (mk_indexed_path n0 ep) ips0))
        \<longrightarrow> distinct (map fst ips)"
    by blast
  have "map_of ips = map_of ips0 ++ surviving n0 (ep # eps)"
    using ips(2) by (simp add: update_conv' map_add_upd_left)
  moreover have "index_paths (ep # eps) ips0 n0 = Inr (ips, n0 + int (total_mid (ep # eps)))"
    using ip ips(1) by (simp add: add.assoc)
  moreover have "distinct (map fst ips0) \<longrightarrow> distinct (map fst ips)"
    using ips(3) by (simp add: distinct_update)
  ultimately show ?case by blast
qed

lemma dom_surviving: "dom (surviving n eps) = src_tgt_ids ` set eps"
  by (induction eps arbitrary: n) auto

lemma surviving_SomeD:
  "surviving n eps k = Some ip \<Longrightarrow>
     \<exists>pre ep post. eps = pre @ ep # post \<and> src_tgt_ids ep = k
        \<and> ip = mk_indexed_path (n + int (total_mid pre)) ep
        \<and> k \<notin> src_tgt_ids ` set post"
proof (induction eps arbitrary: n)
  case Nil
  then show ?case by simp
next
  case (Cons x eps)
  show ?case
  proof (cases "surviving (n + int (n_mid x)) eps k")
    case None
    then have "k \<notin> src_tgt_ids ` set eps"
      using dom_surviving [of "n + int (n_mid x)" eps] by (auto simp: domIff)
    moreover have "src_tgt_ids x = k \<and> ip = mk_indexed_path n x"
      using Cons.prems None by (auto simp: map_add_def split: if_splits)
    ultimately have "x # eps = [] @ x # eps \<and> src_tgt_ids x = k
        \<and> ip = mk_indexed_path (n + int (total_mid [])) x \<and> k \<notin> src_tgt_ids ` set eps"
      by simp
    then show ?thesis by blast
  next
    case (Some ip')
    then have "surviving (n + int (n_mid x)) eps k = Some ip"
      using Cons.prems by (simp add: map_add_def)
    from Cons.IH [OF this] obtain pre ep post where
      "eps = pre @ ep # post" "src_tgt_ids ep = k"
      "ip = mk_indexed_path (n + int (n_mid x) + int (total_mid pre)) ep"
      "k \<notin> src_tgt_ids ` set post"
      by blast
    then have "x # eps = (x # pre) @ ep # post \<and> src_tgt_ids ep = k
        \<and> ip = mk_indexed_path (n + int (total_mid (x # pre))) ep \<and> k \<notin> src_tgt_ids ` set post"
      by (simp add: add.assoc)
    then show ?thesis by blast
  qed
qed

lemma surviving_last:
  "src_tgt_ids ep \<notin> src_tgt_ids ` set post \<Longrightarrow>
     surviving n (pre @ ep # post) (src_tgt_ids ep) =
       Some (mk_indexed_path (n + int (total_mid pre)) ep)"
proof (induction pre arbitrary: n)
  case Nil
  then have "surviving (n + int (n_mid ep)) post (src_tgt_ids ep) = None"
    using dom_surviving [of "n + int (n_mid ep)" post] by (auto simp: domIff)
  then show ?case by (simp add: map_add_def)
next
  case (Cons x pre)
  then show ?case by (simp add: map_add_def add.assoc)
qed

subsection \<open>Lattice assembler: nodes and edges\<close>

lemma even_entries_simps [simp]:
  "even_entries i [] = []"
  "even_entries i (x # xs) = (if even i then x # even_entries (Suc i) xs else even_entries (Suc i) xs)"
  by (simp_all add: even_entries_def)

lemma in_even_entries:
  "x \<in> set (even_entries 0 item) \<longleftrightarrow> (\<exists>p < length item. even p \<and> item ! p = x)"
  by (force simp: even_entries_def in_set_enumerate_eq)

text \<open>The nodes after one indexed path: every even entry is written, a later one wins.\<close>

lemma lattice_item_nodes:
  "lattice_item keys i item (ln, le) = Inr (ln', le') \<Longrightarrow>
     map_of ln' = map_of ln ++ map_of (rev (even_entries i item))"
proof (induction item arbitrary: i ln le)
  case Nil
  then show ?case by simp
next
  case (Cons x item)
  obtain k v where x: "x = (k, v)" by (cases x)
  show ?case
  proof (cases "even i")
    case True
    then have "lattice_item keys (Suc i) item (AList.update k v ln, le) = Inr (ln', le')"
      using Cons.prems by (simp add: x)
    from Cons.IH [OF this] show ?thesis
      using True
      by (auto simp: x update_conv' map_add_def fun_eq_iff split: option.splits)
  next
    case False
    then have "lattice_item keys (Suc i) item
        (ln, AList.update (keys ! (i - 1), keys ! (i + 1)) (snd v) le) = Inr (ln', le')"
      using Cons.prems by (simp add: x even_iff_mod_2_eq_zero split: if_splits)
    from Cons.IH [OF this] show ?thesis
      using False by simp
  qed
qed

text \<open>Every new edge key pairs two keys of the indexed path.\<close>

lemma lattice_item_edges:
  "lattice_item keys i item (ln, le) = Inr (ln', le') \<Longrightarrow>
     fst ` set le' \<subseteq> fst ` set le \<union> set keys \<times> set keys"
proof (induction item arbitrary: i ln le)
  case Nil
  then show ?case by auto
next
  case (Cons x item)
  obtain k v where x: "x = (k, v)" by (cases x)
  show ?case
  proof (cases "even i")
    case True
    then have "lattice_item keys (Suc i) item (AList.update k v ln, le) = Inr (ln', le')"
      using Cons.prems by (simp add: x)
    from Cons.IH [OF this] show ?thesis .
  next
    case False
    then have *: "lattice_item keys (Suc i) item
        (ln, AList.update (keys ! (i - 1), keys ! (i + 1)) (snd v) le) = Inr (ln', le')"
      and i: "i + 1 < length keys"
      using Cons.prems by (simp_all add: x even_iff_mod_2_eq_zero split: if_splits)
    have "keys ! (i - 1) \<in> set keys" "keys ! (i + 1) \<in> set keys"
      using i by simp_all
    then show ?thesis
      using Cons.IH [OF *] by (auto simp: dom_update)
  qed
qed

text \<open>On an indexed path of odd length the loop never reads past the last key.\<close>

lemma lattice_item_returns:
  "i + length item = length keys \<Longrightarrow> odd (length keys) \<Longrightarrow>
     \<exists>acc'. lattice_item keys i item acc = Inr acc'"
proof (induction item arbitrary: i acc)
  case Nil
  then show ?case by simp
next
  case (Cons x item)
  obtain k v where x: "x = (k, v)" by (cases x)
  obtain ln le where acc: "acc = (ln, le)" by (cases acc)
  have next_ok: "Suc i + length item = length keys"
    using Cons.prems(1) by simp
  show ?case
  proof (cases "even i")
    case True
    then show ?thesis
      using Cons.IH [OF next_ok Cons.prems(2)] by (simp add: x acc)
  next
    case False
    have "i + 1 \<noteq> length keys"
    proof
      assume "i + 1 = length keys"
      then have "odd (Suc i)"
        using Cons.prems(2) by simp
      then show False
        using False by simp
    qed
    then have "i + 1 < length keys"
      using Cons.prems(1) by simp
    then show ?thesis
      using False Cons.IH [OF next_ok Cons.prems(2)]
      by (simp add: x acc even_iff_mod_2_eq_zero)
  qed
qed

lemma lattice_items_closed:
  "list_all (\<lambda>item. odd (length item)) items \<Longrightarrow>
     \<exists>nodes edges. lattice_items items (ln, le) = Inr (nodes, edges)
       \<and> map_of nodes = map_of ln ++ map_of (rev (concat (map (even_entries 0) items)))
       \<and> fst ` set edges \<subseteq> fst ` set le \<union> (\<Union>item \<in> set items. set (map fst item) \<times> set (map fst item))"
proof (induction items arbitrary: ln le)
  case Nil
  show ?case by simp
next
  case (Cons item items)
  have "odd (length (map fst item))" "0 + length item = length (map fst item)"
    using Cons.prems by simp_all
  then obtain ln1 le1 where 1: "lattice_item (map fst item) 0 item (ln, le) = Inr (ln1, le1)"
    using lattice_item_returns [of 0 item "map fst item" "(ln, le)"] by auto
  have "list_all (\<lambda>item. odd (length item)) items"
    using Cons.prems by simp
  from Cons.IH [OF this, of ln1 le1] obtain nodes edges where 2:
    "lattice_items items (ln1, le1) = Inr (nodes, edges)"
    "map_of nodes = map_of ln1 ++ map_of (rev (concat (map (even_entries 0) items)))"
    "fst ` set edges \<subseteq> fst ` set le1 \<union> (\<Union>item \<in> set items. set (map fst item) \<times> set (map fst item))"
    by blast
  have "lattice_items (item # items) (ln, le) = Inr (nodes, edges)"
    using 1 2(1) by simp
  moreover have "map_of nodes = map_of ln ++ map_of (rev (concat (map (even_entries 0) (item # items))))"
    using 2(2) lattice_item_nodes [OF 1] by simp
  moreover have "fst ` set edges \<subseteq> fst ` set le \<union>
      (\<Union>item \<in> set (item # items). set (map fst item) \<times> set (map fst item))"
    using 2(3) lattice_item_edges [OF 1] by auto
  ultimately show ?case by blast
qed

subsection \<open>Lattice assembler: fresh ids are unique\<close>

lemma split_cases:
  "pre @ x # post = pre' @ x' # post' \<Longrightarrow>
     (pre = pre' \<and> x = x' \<and> post = post')
     \<or> (\<exists>r. pre' = pre @ x # r) \<or> (\<exists>r. pre = pre' @ x' # r)"
proof (induction pre arbitrary: pre')
  case Nil
  then show ?case by (cases pre') auto
next
  case (Cons a pre)
  show ?case
  proof (cases pre')
    case Nil
    then show ?thesis using Cons.prems by auto
  next
    case (Cons a' pre'')
    then have "pre @ x # post = pre'' @ x' # post'" and "a = a'"
      using Cons.prems by auto
    from Cons.IH [OF this(1)] show ?thesis
      using Cons \<open>a = a'\<close> by auto
  qed
qed

lemma key_at_mid:
  "0 < p \<Longrightarrow> p + 1 < length (path_nodes ep) \<Longrightarrow> key_at b ep p = b + int p - 1"
  by (simp add: key_at_def)

lemma key_at_endpoint:
  "p < length (path_nodes ep) \<Longrightarrow> \<not> (0 < p \<and> p + 1 < length (path_nodes ep)) \<Longrightarrow>
     key_at b ep p = fst (src_tgt_ids ep) \<or> key_at b ep p = snd (src_tgt_ids ep)"
  by (auto simp: key_at_def)

text \<open>
  A fresh id belongs to one element of one path only: the ranges of fresh ids of two
  different paths do not meet, and every fresh id is above every endpoint id.
\<close>

lemma fresh_key_unique:
  assumes eq: "pre @ ep # post = pre' @ ep' # post'"
    and le: "fst (src_tgt_ids ep') \<le> M" "snd (src_tgt_ids ep') \<le> M"
    and p: "0 < p" "p + 1 < length (path_nodes ep)"
    and p': "p' < length (path_nodes ep')"
    and k: "key_at (M + 1 + int (total_mid pre)) ep p = key_at (M + 1 + int (total_mid pre')) ep' p'"
  shows "pre' = pre \<and> ep' = ep \<and> post' = post \<and> p' = p"
proof -
  have kp: "key_at (M + 1 + int (total_mid pre)) ep p = M + int (total_mid pre) + int p"
    using p by (simp add: key_at_mid)
  have mid': "0 < p' \<and> p' + 1 < length (path_nodes ep')"
  proof (rule ccontr)
    assume "\<not> ?thesis"
    from key_at_endpoint [OF p' this, of "M + 1 + int (total_mid pre')"]
    have "key_at (M + 1 + int (total_mid pre')) ep' p' \<le> M"
      using le by auto
    then show False
      using k kp p by simp
  qed
  then have kp': "key_at (M + 1 + int (total_mid pre')) ep' p' = M + int (total_mid pre') + int p'"
    by (simp add: key_at_mid)
  have sum: "total_mid pre + p = total_mid pre' + p'"
    using k kp kp' by simp
  have bound: "p \<le> n_mid ep" "p' \<le> n_mid ep'"
    using p mid' unfolding n_mid_def by linarith+
  from split_cases [OF eq] show ?thesis
  proof (elim disjE exE)
    assume "pre = pre' \<and> ep = ep' \<and> post = post'"
    then show ?thesis using sum by simp
  next
    fix r assume "pre' = pre @ ep # r"
    then have "total_mid pre + n_mid ep \<le> total_mid pre'"
      by simp
    then show ?thesis using sum bound mid' by simp
  next
    fix r assume "pre = pre' @ ep' # r"
    then have "total_mid pre' + n_mid ep' \<le> total_mid pre"
      by simp
    then show ?thesis using sum bound p by simp
  qed
qed

subsection \<open>Lattice assembler: the result in closed form\<close>

lemma wf_path_ok:
  "ep \<in> set eps \<Longrightarrow> wf_path ep \<Longrightarrow> path_ok (max_endpoint_id eps + 1) ep"
  using endpoints_le_max [of ep eps]
  by (auto simp: wf_path_def path_ok_def)

lemma length_mk_indexed_path [simp]:
  "length (mk_indexed_path b ep) = length (path_nodes ep)"
  by (simp add: mk_indexed_path_def)

lemma nth_mk_indexed_path:
  "p < length (path_nodes ep) \<Longrightarrow>
     mk_indexed_path b ep ! p = (key_at b ep p, path_nodes ep ! p)"
  by (simp add: mk_indexed_path_def)

text \<open>
  On well-formed paths \<^verbatim>\<open>build_newly_indexed_path_dict\<close> returns; the counter ends after
  the intermediate elements of all paths, and the nodes are the even entries of the
  indexed paths that are left, a later entry winning over an earlier one with its key.
\<close>

lemma build_closed:
  assumes "list_all wf_path eps"
  shows "\<exists>ips nodes edges.
     index_paths eps [] (max_endpoint_id eps + 1) =
        Inr (ips, max_endpoint_id eps + 1 + int (total_mid eps))
     \<and> distinct (map fst ips)
     \<and> map_of ips = surviving (max_endpoint_id eps + 1) eps
     \<and> build_newly_indexed_path_dict eps = Inr (nodes, edges)
     \<and> map_of nodes = map_of (rev (concat (map (even_entries 0) (map snd ips))))
     \<and> fst ` set edges \<subseteq>
          (\<Union>item \<in> set (map snd ips). set (map fst item) \<times> set (map fst item))"
proof -
  define M where "M = max_endpoint_id eps"
  have "list_all (path_ok (M + 1)) eps"
    using assms wf_path_ok [of _ eps] by (auto simp: list_all_iff M_def)
  from index_paths_closed [OF this, of "[]"] obtain ips where ips:
    "index_paths eps [] (M + 1) = Inr (ips, M + 1 + int (total_mid eps))"
    "map_of ips = surviving (M + 1) eps" "distinct (map fst ips)"
    by auto
  have "odd (length item)" if "item \<in> set (map snd ips)" for item
  proof -
    from that obtain k where "(k, item) \<in> set ips"
      by auto
    then have "surviving (M + 1) eps k = Some item"
      using ips(2,3) by (metis map_of_eq_Some_iff)
    from surviving_SomeD [OF this] obtain pre ep post where
      "eps = pre @ ep # post" "item = mk_indexed_path (M + 1 + int (total_mid pre)) ep"
      by blast
    then show ?thesis
      using assms by (simp add: wf_path_def)
  qed
  then have "list_all (\<lambda>item. odd (length item)) (map snd ips)"
    by (simp add: list_all_iff)
  from lattice_items_closed [OF this, of "[]" "[]"] obtain nodes edges where ne:
    "lattice_items (map snd ips) ([], []) = Inr (nodes, edges)"
    "map_of nodes = map_of (rev (concat (map (even_entries 0) (map snd ips))))"
    "fst ` set edges \<subseteq>
       (\<Union>item \<in> set (map snd ips). set (map fst item) \<times> set (map fst item))"
    by auto
  have "build_newly_indexed_path_dict eps = Inr (nodes, edges)"
    using ips(1) ne(1) by (simp add: build_newly_indexed_path_dict_def M_def)
  then show ?thesis
    using ips ne(2,3) unfolding M_def by blast
qed

text \<open>
  Every entry of an indexed path that is left after the second loop is an element of a
  path that no later path replaces, under its \<^const>\<open>key_at\<close>.
\<close>

lemma surviving_item_entry:
  assumes "map_of ips = surviving n eps" "distinct (map fst ips)"
    and "item \<in> set (map snd ips)" "p < length item"
  shows "\<exists>pre ep post. eps = pre @ ep # post
      \<and> src_tgt_ids ep \<notin> src_tgt_ids ` set post
      \<and> p < length (path_nodes ep)
      \<and> item ! p = (key_at (n + int (total_mid pre)) ep p, path_nodes ep ! p)"
proof -
  from assms(3) obtain k where "(k, item) \<in> set ips"
    by auto
  then have "surviving n eps k = Some item"
    using assms(1,2) by (metis map_of_eq_Some_iff)
  from surviving_SomeD [OF this] obtain pre ep post where d:
    "eps = pre @ ep # post" "src_tgt_ids ep = k"
    "item = mk_indexed_path (n + int (total_mid pre)) ep" "k \<notin> src_tgt_ids ` set post"
    by blast
  have "p < length (path_nodes ep)"
    using assms(4) d(3) by simp
  then show ?thesis
    using d by (auto simp: nth_mk_indexed_path)
qed

text \<open>Every binding of the nodes is an even element of a path that is not replaced.\<close>

lemma nodes_sound:
  assumes "map_of ips = surviving n eps" "distinct (map fst ips)"
    and "map_of (rev (concat (map (even_entries 0) (map snd ips)))) k = Some v"
  shows "\<exists>pre ep post p. eps = pre @ ep # post
      \<and> src_tgt_ids ep \<notin> src_tgt_ids ` set post
      \<and> p < length (path_nodes ep) \<and> even p
      \<and> k = key_at (n + int (total_mid pre)) ep p \<and> v = path_nodes ep ! p"
proof -
  from map_of_SomeD [OF assms(3)]
  obtain item where item: "item \<in> set (map snd ips)" and "(k, v) \<in> set (even_entries 0 item)"
    by auto
  then obtain p where p: "p < length item" "even p" "item ! p = (k, v)"
    by (auto simp: in_even_entries)
  from surviving_item_entry [OF assms(1,2) item p(1)] show ?thesis
    using p(2,3) by auto
qed

text \<open>Every even element of a path that is not replaced has its id bound in the nodes.\<close>

lemma nodes_complete:
  assumes "map_of ips = surviving n (pre @ ep # post)"
    and "src_tgt_ids ep \<notin> src_tgt_ids ` set post"
    and "p < length (path_nodes ep)" "even p"
  shows "\<exists>v. map_of (rev (concat (map (even_entries 0) (map snd ips))))
             (key_at (n + int (total_mid pre)) ep p) = Some v"
proof -
  define item where "item = mk_indexed_path (n + int (total_mid pre)) ep"
  have "map_of ips (src_tgt_ids ep) = Some item"
    using surviving_last [OF assms(2), of n pre] assms(1) by (simp add: item_def)
  then have "item \<in> set (map snd ips)"
    by (force dest: map_of_SomeD)
  moreover have "(key_at (n + int (total_mid pre)) ep p, path_nodes ep ! p)
      \<in> set (even_entries 0 item)"
    using assms(3,4) by (auto simp: in_even_entries item_def nth_mk_indexed_path)
  ultimately have "key_at (n + int (total_mid pre)) ep p
      \<in> fst ` set (rev (concat (map (even_entries 0) (map snd ips))))"
    by force
  then show ?thesis
    by (metis weak_map_of_SomeI imageE prod.collapse)
qed

subsection \<open>Lattice assembler: the claims\<close>

text \<open>
  A key of the nodes that is not above the maximum endpoint id is an endpoint id, bound
  to an endpoint element.
\<close>

lemma endpoint_key_bound:
  assumes ips: "map_of ips = surviving (M + 1) eps" "distinct (map fst ips)"
    and nodes: "map_of nodes = map_of (rev (concat (map (even_entries 0) (map snd ips))))"
    and v: "map_of nodes k = Some v" and k: "k \<le> M"
  shows "endpoint_bound eps nodes k"
proof -
  from nodes_sound [OF ips v [unfolded nodes]]
  obtain pre x post p where d: "eps = pre @ x # post" "p < length (path_nodes x)"
    "k = key_at (M + 1 + int (total_mid pre)) x p" "v = path_nodes x ! p"
    by blast
  have x: "x \<in> set eps"
    using d(1) by simp
  have "\<not> (0 < p \<and> p + 1 < length (path_nodes x))"
    using k d(3) by (auto simp: key_at_mid)
  then consider "p = 0" | "p \<noteq> 0" "p + 1 = length (path_nodes x)"
    using d(2) by linarith
  then have "(fst (src_tgt_ids x) = k \<and> map_of nodes k = Some (hd (path_nodes x)))
      \<or> (snd (src_tgt_ids x) = k \<and> map_of nodes k = Some (last (path_nodes x)))"
  proof cases
    case 1
    then show ?thesis
      using d(2,3,4) v by (cases "path_nodes x") (auto simp: key_at_def)
  next
    case 2
    then have "path_nodes x ! p = last (path_nodes x)"
      using d(2) by (metis add_diff_cancel_right' last_conv_nth length_greater_0_conv less_nat_zero_code list.size(3))
    then show ?thesis
      using 2 d(3,4) v by (auto simp: key_at_def)
  qed
  then show ?thesis
    using x unfolding endpoint_bound_def list_ex_iff by blast
qed

text \<open>
  An entry of a remaining indexed path whose key is the fresh id of an intermediate
  element: the element's path is not replaced by a later one, and the entry is that
  element.
\<close>

lemma fresh_key_entry:
  assumes ips: "map_of ips = surviving (M + 1) eps" "distinct (map fst ips)"
    and le: "\<forall>x \<in> set eps. fst (src_tgt_ids x) \<le> M \<and> snd (src_tgt_ids x) \<le> M"
    and eps: "eps = pre @ ep # post"
    and p: "0 < p" "p + 1 < length (path_nodes ep)"
    and item: "item \<in> set (map snd ips)" "q < length item"
      "fst (item ! q) = M + 1 + int (total_mid pre) + int p - 1"
  shows "src_tgt_ids ep \<notin> src_tgt_ids ` set post \<and> q = p
      \<and> snd (item ! q) = path_nodes ep ! p"
proof -
  from surviving_item_entry [OF ips item(1,2)]
  obtain pre' ep' post' where d: "eps = pre' @ ep' # post'"
    "src_tgt_ids ep' \<notin> src_tgt_ids ` set post'" "q < length (path_nodes ep')"
    "item ! q = (key_at (M + 1 + int (total_mid pre')) ep' q, path_nodes ep' ! q)"
    by blast
  have "ep' \<in> set eps"
    using d(1) by simp
  then have le': "fst (src_tgt_ids ep') \<le> M" "snd (src_tgt_ids ep') \<le> M"
    using le by auto
  have "key_at (M + 1 + int (total_mid pre)) ep p = key_at (M + 1 + int (total_mid pre')) ep' q"
    using item(3) d(4) p by (simp add: key_at_mid)
  from fresh_key_unique [OF _ le' p d(3) this, of post post']
  have "pre' = pre \<and> ep' = ep \<and> post' = post \<and> q = p"
    using eps d(1) by simp
  then show ?thesis
    using d(2,4) by simp
qed

text \<open>
  What the nodes hold under the fresh id of an intermediate element: the element, when
  its path is not replaced and its position is even; nothing otherwise.
\<close>

lemma fresh_node_lookup:
  assumes ips: "map_of ips = surviving (M + 1) eps" "distinct (map fst ips)"
    and nodes: "map_of nodes = map_of (rev (concat (map (even_entries 0) (map snd ips))))"
    and le: "\<forall>x \<in> set eps. fst (src_tgt_ids x) \<le> M \<and> snd (src_tgt_ids x) \<le> M"
    and eps: "eps = pre @ ep # post"
    and p: "0 < p" "p + 1 < length (path_nodes ep)"
  shows "map_of nodes (M + 1 + int (total_mid pre) + int p - 1) =
     (if src_tgt_ids ep \<notin> src_tgt_ids ` set post \<and> even p
      then Some (path_nodes ep ! p) else None)"
proof -
  define k where "k = M + 1 + int (total_mid pre) + int p - 1"
  have sound: "src_tgt_ids ep \<notin> src_tgt_ids ` set post \<and> even p \<and> v = path_nodes ep ! p"
    if "map_of nodes k = Some v" for v
  proof -
    from map_of_SomeD [OF that [unfolded nodes]]
    obtain item where item: "item \<in> set (map snd ips)" "(k, v) \<in> set (even_entries 0 item)"
      by auto
    then obtain q where q: "q < length item" "even q" "item ! q = (k, v)"
      by (auto simp: in_even_entries)
    from fresh_key_entry [OF ips le eps p item(1) q(1)] show ?thesis
      using q(2,3) by (simp add: k_def)
  qed
  show ?thesis
  proof (cases "src_tgt_ids ep \<notin> src_tgt_ids ` set post \<and> even p")
    case True
    have "p < length (path_nodes ep)"
      using p(2) by simp
    with True have "\<exists>v. map_of (rev (concat (map (even_entries 0) (map snd ips))))
        (key_at (M + 1 + int (total_mid pre)) ep p) = Some v"
      by (intro nodes_complete [OF ips(1) [unfolded eps]]) simp_all
    then obtain v where "map_of nodes k = Some v"
      using p by (auto simp: nodes k_def key_at_mid)
    then show ?thesis
      using sound True by (simp add: k_def)
  next
    case False
    have "map_of nodes k = None"
    proof (rule ccontr)
      assume "map_of nodes k \<noteq> None"
      then obtain v where "map_of nodes k = Some v"
        by auto
      from sound [OF this] False show False
        by simp
    qed
    then show ?thesis
      using False by (simp add: k_def)
  qed
qed

text \<open>No edge key mentions a fresh id of a path that a later path replaces.\<close>

lemma fresh_edge_absent:
  assumes ips: "map_of ips = surviving (M + 1) eps" "distinct (map fst ips)"
    and edges: "fst ` set edges \<subseteq>
          (\<Union>item \<in> set (map snd ips). set (map fst item) \<times> set (map fst item))"
    and le: "\<forall>x \<in> set eps. fst (src_tgt_ids x) \<le> M \<and> snd (src_tgt_ids x) \<le> M"
    and eps: "eps = pre @ ep # post"
    and p: "0 < p" "p + 1 < length (path_nodes ep)"
    and replaced: "src_tgt_ids ep \<in> src_tgt_ids ` set post"
  shows "map_of edges (M + 1 + int (total_mid pre) + int p - 1, k') = None
    \<and> map_of edges (k', M + 1 + int (total_mid pre) + int p - 1) = None"
proof -
  define k where "k = M + 1 + int (total_mid pre) + int p - 1"
  have no: "k \<notin> set (map fst item)" if item: "item \<in> set (map snd ips)" for item
  proof
    assume "k \<in> set (map fst item)"
    then obtain q where "q < length item" "fst (item ! q) = k"
      by (auto simp: in_set_conv_nth)
    from fresh_key_entry [OF ips le eps p item this [unfolded k_def]] replaced
    show False by simp
  qed
  have "(k, k') \<notin> fst ` set edges" "(k', k) \<notin> fst ` set edges"
    using edges no by auto
  then show ?thesis
    by (simp add: map_of_eq_None_iff k_def)
qed


lemma example_evals:
  "max_endpoint_id [path_0_1, path_1_2] = 2"
  "max_endpoint_id [path_0_1_long, path_1_2, path_0_1] = 2"
  by (simp_all add: max_endpoint_id_def path_0_1_def path_1_2_def path_0_1_long_def)



subsection \<open>Lattice assembler: any non-empty paths\<close>

text \<open>
  One edge path in closed form, whether or not its endpoint ids differ.
\<close>

lemma index_path_general:
  assumes "path_nodes ep \<noteq> []" "fst (src_tgt_ids ep) < n" "snd (src_tgt_ids ep) < n"
  shows "index_path n ep = Inr (gen_indexed_path n ep, n + int (n_mid ep))"
proof (cases "fst (src_tgt_ids ep) = snd (src_tgt_ids ep) \<and> 1 < length (path_nodes ep)")
  case False
  then show ?thesis
    using index_path_closed [OF assms] by (auto simp: gen_indexed_path_def)
next
  case True
  define L where "L = length (path_nodes ep)"
  have L: "2 \<le> L"
    using True by (simp add: L_def)
  obtain s e where ids: "src_tgt_ids ep = (s, e)"
    by (cases "src_tgt_ids ep")
  have se: "e = s"
    using True ids by simp
  have pre: "fold (\<lambda>i (indexed_path, next_id).
                (AList.update next_id (path_nodes ep ! i) indexed_path, next_id + 1))
           [1 ..< L - 1] ([(s, path_nodes ep ! 0)], n) =
         (map (\<lambda>p. (key_at n ep p, path_nodes ep ! p)) [0 ..< L - 1], n + int (L - 1) - 1)"
    using index_path_prefix [OF assms(2), of "L - 1"] L by (simp add: L_def ids)
  have upt: "[0 ..< L - 1] = 0 # [1 ..< L - 1]"
    using L by (simp add: upt_conv_Cons)
  have k0: "key_at n ep 0 = s"
    by (simp add: key_at_def ids)
  have upd: "AList.update s (last (path_nodes ep))
        (map (\<lambda>p. (key_at n ep p, path_nodes ep ! p)) [0 ..< L - 1]) =
      (s, last (path_nodes ep)) # map (\<lambda>p. (key_at n ep p, path_nodes ep ! p)) [1 ..< L - 1]"
    by (subst upt) (simp add: k0)
  have "n + int (L - 1) - 1 = n + int (n_mid ep)"
    using L by (simp add: n_mid_def L_def)
  then show ?thesis
    using assms(1) L pre True upd
    by (simp add: index_path_def Let_def L_def [symmetric] ids se gen_indexed_path_def)
qed

text \<open>The second loop returns only when no path is empty.\<close>

lemma index_paths_nonempty:
  "index_paths eps ips0 n0 = Inr r \<Longrightarrow> ep \<in> set eps \<Longrightarrow> path_nodes ep \<noteq> []"
proof (induction eps arbitrary: ips0 n0)
  case Nil
  then show ?case by simp
next
  case (Cons x eps)
  from Cons.prems(1) obtain ip n' where x: "index_path n0 x = Inr (ip, n')"
    and rest: "index_paths eps (AList.update (src_tgt_ids x) ip ips0) n' = Inr r"
    by (auto split: sum.splits)
  have "path_nodes x \<noteq> []"
    using x by (auto simp: index_path_def Let_def split: prod.splits if_splits)
  then show ?case
    using Cons.IH [OF rest] Cons.prems(2) by auto
qed

text \<open>
  On non-empty paths with endpoint ids below the counter the second loop returns, moves
  the counter by the number of all intermediate elements, and leaves the indexed paths
  described by \<^const>\<open>remaining\<close>.
\<close>

lemma index_paths_general:
  "\<forall>ep \<in> set eps. path_nodes ep \<noteq> [] \<and> fst (src_tgt_ids ep) < n0 \<and> snd (src_tgt_ids ep) < n0 \<Longrightarrow>
     \<exists>ips. index_paths eps ips0 n0 = Inr (ips, n0 + int (total_mid eps))
       \<and> map_of ips = map_of ips0 ++ remaining n0 eps
       \<and> (distinct (map fst ips0) \<longrightarrow> distinct (map fst ips))"
proof (induction eps arbitrary: ips0 n0)
  case Nil
  show ?case by simp
next
  case (Cons ep eps)
  have ip: "index_path n0 ep = Inr (gen_indexed_path n0 ep, n0 + int (n_mid ep))"
    using Cons.prems by (intro index_path_general) auto
  have "\<forall>x \<in> set eps. path_nodes x \<noteq> [] \<and> fst (src_tgt_ids x) < n0 + int (n_mid ep)
      \<and> snd (src_tgt_ids x) < n0 + int (n_mid ep)"
    using Cons.prems by fastforce
  from Cons.IH [OF this, of "AList.update (src_tgt_ids ep) (gen_indexed_path n0 ep) ips0"]
  obtain ips where ips:
    "index_paths eps (AList.update (src_tgt_ids ep) (gen_indexed_path n0 ep) ips0)
        (n0 + int (n_mid ep)) = Inr (ips, n0 + int (n_mid ep) + int (total_mid eps))"
    "map_of ips = map_of (AList.update (src_tgt_ids ep) (gen_indexed_path n0 ep) ips0)
        ++ remaining (n0 + int (n_mid ep)) eps"
    "distinct (map fst (AList.update (src_tgt_ids ep) (gen_indexed_path n0 ep) ips0))
        \<longrightarrow> distinct (map fst ips)"
    by blast
  have "map_of ips = map_of ips0 ++ remaining n0 (ep # eps)"
    using ips(2) by (simp add: update_conv' map_add_upd_left)
  moreover have "index_paths (ep # eps) ips0 n0 = Inr (ips, n0 + int (total_mid (ep # eps)))"
    using ip ips(1) by (simp add: add.assoc)
  moreover have "distinct (map fst ips0) \<longrightarrow> distinct (map fst ips)"
    using ips(3) by (simp add: distinct_update)
  ultimately show ?case by blast
qed

lemma dom_remaining: "dom (remaining n eps) = src_tgt_ids ` set eps"
  by (induction eps arbitrary: n) auto

lemma remaining_SomeD:
  "remaining n eps k = Some ip \<Longrightarrow>
     \<exists>pre ep post. eps = pre @ ep # post \<and> src_tgt_ids ep = k
        \<and> ip = gen_indexed_path (n + int (total_mid pre)) ep
        \<and> k \<notin> src_tgt_ids ` set post"
proof (induction eps arbitrary: n)
  case Nil
  then show ?case by simp
next
  case (Cons x eps)
  show ?case
  proof (cases "remaining (n + int (n_mid x)) eps k")
    case None
    then have "k \<notin> src_tgt_ids ` set eps"
      using dom_remaining [of "n + int (n_mid x)" eps] by (auto simp: domIff)
    moreover have "src_tgt_ids x = k \<and> ip = gen_indexed_path n x"
      using Cons.prems None by (auto simp: map_add_def split: if_splits)
    ultimately have "x # eps = [] @ x # eps \<and> src_tgt_ids x = k
        \<and> ip = gen_indexed_path (n + int (total_mid [])) x \<and> k \<notin> src_tgt_ids ` set eps"
      by simp
    then show ?thesis by blast
  next
    case (Some ip')
    then have "remaining (n + int (n_mid x)) eps k = Some ip"
      using Cons.prems by (simp add: map_add_def)
    from Cons.IH [OF this] obtain pre ep post where
      "eps = pre @ ep # post" "src_tgt_ids ep = k"
      "ip = gen_indexed_path (n + int (n_mid x) + int (total_mid pre)) ep"
      "k \<notin> src_tgt_ids ` set post"
      by blast
    then have "x # eps = (x # pre) @ ep # post \<and> src_tgt_ids ep = k
        \<and> ip = gen_indexed_path (n + int (total_mid (x # pre))) ep \<and> k \<notin> src_tgt_ids ` set post"
      by (simp add: add.assoc)
    then show ?thesis by blast
  qed
qed

lemma remaining_last:
  "src_tgt_ids ep \<notin> src_tgt_ids ` set post \<Longrightarrow>
     remaining n (pre @ ep # post) (src_tgt_ids ep) =
       Some (gen_indexed_path (n + int (total_mid pre)) ep)"
proof (induction pre arbitrary: n)
  case Nil
  then have "remaining (n + int (n_mid ep)) post (src_tgt_ids ep) = None"
    using dom_remaining [of "n + int (n_mid ep)" post] by (auto simp: domIff)
  then show ?case by (simp add: map_add_def)
next
  case (Cons x pre)
  then show ?case by (simp add: map_add_def add.assoc)
qed

text \<open>
  The entries of an indexed path: entry \<open>q\<close> stands under \<^const>\<open>key_at\<close> of \<open>q\<close>, and
  holds element \<open>q\<close> of the path unless it is the first entry.
\<close>

lemma gen_indexed_path_nth:
  assumes "q < length (gen_indexed_path b ep)"
  shows "q < length (path_nodes ep) \<and> fst (gen_indexed_path b ep ! q) = key_at b ep q
      \<and> (0 < q \<longrightarrow> snd (gen_indexed_path b ep ! q) = path_nodes ep ! q)"
proof (cases "fst (src_tgt_ids ep) = snd (src_tgt_ids ep) \<and> 1 < length (path_nodes ep)")
  case False
  then show ?thesis
    using assms by (auto simp: gen_indexed_path_def nth_mk_indexed_path)
next
  case True
  then have g: "gen_indexed_path b ep = (fst (src_tgt_ids ep), last (path_nodes ep))
      # map (\<lambda>p. (key_at b ep p, path_nodes ep ! p)) [1 ..< length (path_nodes ep) - 1]"
    by (simp add: gen_indexed_path_def)
  show ?thesis
  proof (cases q)
    case 0
    then show ?thesis using True by (auto simp: g key_at_def)
  next
    case (Suc q')
    then have "q' < length (path_nodes ep) - 1 - 1"
      using assms by (simp add: g)
    then show ?thesis
      using Suc by (simp add: g)
  qed
qed

lemma gen_indexed_path_mid:
  assumes "0 < p" "p + 1 < length (path_nodes ep)"
  shows "p < length (gen_indexed_path b ep)
      \<and> gen_indexed_path b ep ! p = (b + int p - 1, path_nodes ep ! p)"
proof -
  have len: "p < length (gen_indexed_path b ep)"
    using assms by (auto simp: gen_indexed_path_def)
  from gen_indexed_path_nth [OF this] show ?thesis
    using assms len by (simp add: key_at_mid prod_eq_iff)
qed

lemma edge_entries_simps [simp]:
  "edge_entries keys i [] = []"
  "edge_entries keys i (x # xs) =
     (if odd i then ((keys ! (i - 1), keys ! (i + 1)), snd (snd x)) # edge_entries keys (Suc i) xs
      else edge_entries keys (Suc i) xs)"
  by (simp_all add: edge_entries_def)

lemma in_edge_entries:
  "x \<in> set (edge_entries keys 0 item) \<longleftrightarrow>
     (\<exists>q < length item. odd q \<and> x = ((keys ! (q - 1), keys ! (q + 1)), snd (snd (item ! q))))"
  by (force simp: edge_entries_def in_set_enumerate_eq)

text \<open>
  The edges after one indexed path, when the loop returns: every odd entry is written,
  a later one wins, and the key after every odd entry exists.
\<close>

lemma lattice_item_edges_exact:
  "lattice_item keys i item (ln, le) = Inr (ln', le') \<Longrightarrow>
     map_of le' = map_of le ++ map_of (rev (edge_entries keys i item))
     \<and> (\<forall>q. i \<le> q \<and> q < i + length item \<and> odd q \<longrightarrow> q + 1 < length keys)"
proof (induction item arbitrary: i ln le)
  case Nil
  then show ?case by simp
next
  case (Cons x item)
  obtain k v where x: "x = (k, v)" by (cases x)
  show ?case
  proof (cases "even i")
    case True
    then have "lattice_item keys (Suc i) item (AList.update k v ln, le) = Inr (ln', le')"
      using Cons.prems by (simp add: x)
    from Cons.IH [OF this] have
      1: "map_of le' = map_of le ++ map_of (rev (edge_entries keys (Suc i) item))"
      and 2: "\<forall>q. Suc i \<le> q \<and> q < Suc i + length item \<and> odd q \<longrightarrow> q + 1 < length keys"
      by simp_all
    have "q + 1 < length keys" if "i \<le> q" "q < i + length (x # item)" "odd q" for q
    proof -
      have "q \<noteq> i" using True that(3) by auto
      then show ?thesis using 2 that by simp
    qed
    then show ?thesis
      using True 1 by simp
  next
    case False
    then have *: "lattice_item keys (Suc i) item
        (ln, AList.update (keys ! (i - 1), keys ! (i + 1)) (snd v) le) = Inr (ln', le')"
      and i: "i + 1 < length keys"
      using Cons.prems by (simp_all add: x even_iff_mod_2_eq_zero split: if_splits)
    from Cons.IH [OF *] have
      1: "map_of le' = map_of (AList.update (keys ! (i - 1), keys ! (i + 1)) (snd v) le)
            ++ map_of (rev (edge_entries keys (Suc i) item))"
      and 2: "\<forall>q. Suc i \<le> q \<and> q < Suc i + length item \<and> odd q \<longrightarrow> q + 1 < length keys"
      by simp_all
    have "q + 1 < length keys" if "i \<le> q" "q < i + length (x # item)" "odd q" for q
      using 2 that i by (cases "q = i") simp_all
    moreover have "map_of le' = map_of le ++ map_of (rev (edge_entries keys i (x # item)))"
      using False 1
      by (auto simp: x update_conv' map_add_def fun_eq_iff split: option.splits)
    ultimately show ?thesis
      by blast
  qed
qed

text \<open>The nodes and the edges, whenever the last loop returns.\<close>

lemma lattice_items_result:
  "lattice_items items (ln, le) = Inr (nodes, edges) \<Longrightarrow>
     map_of nodes = map_of ln ++ map_of (rev (concat (map (even_entries 0) items)))
     \<and> map_of edges = map_of le
          ++ map_of (rev (concat (map (\<lambda>item. edge_entries (map fst item) 0 item) items)))
     \<and> (\<forall>item \<in> set items. \<forall>q < length item. odd q \<longrightarrow> q + 1 < length item)"
proof (induction items arbitrary: ln le)
  case Nil
  then show ?case by simp
next
  case (Cons item items)
  from Cons.prems obtain ln1 le1 where
    1: "lattice_item (map fst item) 0 item (ln, le) = Inr (ln1, le1)"
    and 2: "lattice_items items (ln1, le1) = Inr (nodes, edges)"
    by (auto split: sum.splits)
  note n1 = lattice_item_nodes [OF 1]
  note e1 = lattice_item_edges_exact [OF 1]
  note r = Cons.IH [OF 2]
  have "map_of nodes = map_of ln ++ map_of (rev (concat (map (even_entries 0) (item # items))))"
    using r n1 by simp
  moreover have "map_of edges = map_of le
      ++ map_of (rev (concat (map (\<lambda>item. edge_entries (map fst item) 0 item) (item # items))))"
    using r e1 by simp
  moreover have "\<forall>it \<in> set (item # items). \<forall>q < length it. odd q \<longrightarrow> q + 1 < length it"
    using r e1 by auto
  ultimately show ?case by blast
qed

subsection \<open>Lattice assembler: the result whenever the function returns\<close>

text \<open>
  Whenever \<^verbatim>\<open>build_newly_indexed_path_dict\<close> returns: the counter ends after the
  intermediate elements of all paths, the indexed paths are those of \<^const>\<open>remaining\<close>,
  the nodes are their even entries and the edges their odd entries, a later entry
  winning over an earlier one with its key.
\<close>

lemma build_result:
  assumes "build_newly_indexed_path_dict eps = Inr (nodes, edges)"
  shows "\<exists>ips.
     index_paths eps [] (max_endpoint_id eps + 1) =
        Inr (ips, max_endpoint_id eps + 1 + int (total_mid eps))
     \<and> distinct (map fst ips)
     \<and> map_of ips = remaining (max_endpoint_id eps + 1) eps
     \<and> map_of nodes = map_of (rev (concat (map (even_entries 0) (map snd ips))))
     \<and> map_of edges =
          map_of (rev (concat (map (\<lambda>item. edge_entries (map fst item) 0 item) (map snd ips))))
     \<and> (\<forall>item \<in> set (map snd ips). \<forall>q < length item. odd q \<longrightarrow> q + 1 < length item)"
proof -
  define M where "M = max_endpoint_id eps"
  from assms obtain ips0 n0 where i0: "index_paths eps [] (M + 1) = Inr (ips0, n0)"
    and l0: "lattice_items (map snd ips0) ([], []) = Inr (nodes, edges)"
    by (auto simp: build_newly_indexed_path_dict_def M_def Let_def split: sum.splits)
  have "\<forall>ep \<in> set eps. path_nodes ep \<noteq> [] \<and> fst (src_tgt_ids ep) < M + 1
      \<and> snd (src_tgt_ids ep) < M + 1"
    using index_paths_nonempty [OF i0] endpoints_le_max [of _ eps]
    by (fastforce simp: M_def)
  from index_paths_general [OF this, of "[]"] obtain ips where ips:
    "index_paths eps [] (M + 1) = Inr (ips, M + 1 + int (total_mid eps))"
    "map_of ips = remaining (M + 1) eps" "distinct (map fst ips)"
    by auto
  have "ips0 = ips"
    using i0 ips(1) by simp
  from lattice_items_result [OF l0 [unfolded this]] show ?thesis
    using ips unfolding M_def by auto
qed

text \<open>
  Every indexed path that is left after the second loop is the indexed path of a path
  that no later path replaces.
\<close>

lemma remaining_item_entry:
  assumes "map_of ips = remaining n eps" "distinct (map fst ips)"
    and "item \<in> set (map snd ips)"
  shows "\<exists>pre ep post. eps = pre @ ep # post
      \<and> src_tgt_ids ep \<notin> src_tgt_ids ` set post
      \<and> item = gen_indexed_path (n + int (total_mid pre)) ep
      \<and> (\<forall>q < length item. q < length (path_nodes ep)
            \<and> fst (item ! q) = key_at (n + int (total_mid pre)) ep q
            \<and> (0 < q \<longrightarrow> snd (item ! q) = path_nodes ep ! q))"
proof -
  from assms(3) obtain k where "(k, item) \<in> set ips"
    by auto
  then have "remaining n eps k = Some item"
    using assms(1,2) by (metis map_of_eq_Some_iff)
  from remaining_SomeD [OF this] obtain pre ep post where d:
    "eps = pre @ ep # post" "src_tgt_ids ep = k"
    "item = gen_indexed_path (n + int (total_mid pre)) ep" "k \<notin> src_tgt_ids ` set post"
    by blast
  have "\<forall>q < length item. q < length (path_nodes ep)
            \<and> fst (item ! q) = key_at (n + int (total_mid pre)) ep q
            \<and> (0 < q \<longrightarrow> snd (item ! q) = path_nodes ep ! q)"
    unfolding d(3) using gen_indexed_path_nth by blast
  then show ?thesis
    using d by blast
qed

text \<open>Two paths that both stand last for the same pair of endpoint ids are the same path.\<close>

lemma last_of_pair_unique:
  assumes "pre @ x # post = pre' @ x' # post'" "src_tgt_ids x = src_tgt_ids x'"
    and "src_tgt_ids x \<notin> src_tgt_ids ` set post" "src_tgt_ids x' \<notin> src_tgt_ids ` set post'"
  shows "pre = pre' \<and> x = x' \<and> post = post'"
proof -
  from split_cases [OF assms(1)] show ?thesis
  proof (elim disjE exE)
    fix r assume "pre' = pre @ x # r"
    then have "post = r @ x' # post'"
      using assms(1) by simp
    then show ?thesis
      using assms(2,3) by auto
  next
    fix r assume "pre = pre' @ x' # r"
    then have "post' = r @ x # post"
      using assms(1) by simp
    then show ?thesis
      using assms(2,4) by auto
  qed simp
qed

text \<open>
  An entry of a remaining indexed path whose key is the fresh id of an intermediate
  element: it stands at the position of that element, in the indexed path of its path,
  which no later path replaces.
\<close>

lemma remaining_fresh_key_entry:
  assumes ips: "map_of ips = remaining (M + 1) eps" "distinct (map fst ips)"
    and le: "\<forall>x \<in> set eps. fst (src_tgt_ids x) \<le> M \<and> snd (src_tgt_ids x) \<le> M"
    and eps: "eps = pre @ ep # post"
    and p: "0 < p" "p + 1 < length (path_nodes ep)"
    and item: "item \<in> set (map snd ips)" "q < length item"
      "fst (item ! q) = M + 1 + int (total_mid pre) + int p - 1"
  shows "src_tgt_ids ep \<notin> src_tgt_ids ` set post \<and> q = p
      \<and> item = gen_indexed_path (M + 1 + int (total_mid pre)) ep"
proof -
  from remaining_item_entry [OF ips item(1)] item(2)
  obtain pre' ep' post' where d: "eps = pre' @ ep' # post'"
    "src_tgt_ids ep' \<notin> src_tgt_ids ` set post'"
    "item = gen_indexed_path (M + 1 + int (total_mid pre')) ep'"
    "q < length (path_nodes ep')"
    "fst (item ! q) = key_at (M + 1 + int (total_mid pre')) ep' q"
    by blast
  have "ep' \<in> set eps"
    using d(1) by simp
  then have le': "fst (src_tgt_ids ep') \<le> M" "snd (src_tgt_ids ep') \<le> M"
    using le by auto
  have "key_at (M + 1 + int (total_mid pre)) ep p = key_at (M + 1 + int (total_mid pre')) ep' q"
    using item(3) d(5) p by (simp add: key_at_mid)
  from fresh_key_unique [OF _ le' p d(4) this, of post post']
  have "pre' = pre \<and> ep' = ep \<and> post' = post \<and> q = p"
    using eps d(1) by simp
  then show ?thesis
    using d(2,3) by simp
qed

lemma map_of_rev_unique:
  assumes "(k, v) \<in> set l" "\<forall>v'. (k, v') \<in> set l \<longrightarrow> v' = v"
  shows "map_of (rev l) k = Some v"
proof -
  have "k \<in> fst ` set (rev l)"
    using assms(1) by force
  then obtain v' where v': "map_of (rev l) k = Some v'"
    by (metis weak_map_of_SomeI imageE prod.collapse)
  then have "(k, v') \<in> set l"
    by (auto dest: map_of_SomeD)
  then show ?thesis
    using assms(2) v' by simp
qed

text \<open>
  What the nodes hold under the fresh id of an intermediate element, whenever the
  function returns: the element, when its path is not replaced and its position is even;
  nothing otherwise.
\<close>

lemma remaining_node_lookup:
  assumes ips: "map_of ips = remaining (M + 1) eps" "distinct (map fst ips)"
    and nodes: "map_of nodes = map_of (rev (concat (map (even_entries 0) (map snd ips))))"
    and le: "\<forall>x \<in> set eps. fst (src_tgt_ids x) \<le> M \<and> snd (src_tgt_ids x) \<le> M"
    and eps: "eps = pre @ ep # post"
    and p: "0 < p" "p + 1 < length (path_nodes ep)"
  shows "map_of nodes (M + 1 + int (total_mid pre) + int p - 1) =
     (if src_tgt_ids ep \<notin> src_tgt_ids ` set post \<and> even p
      then Some (path_nodes ep ! p) else None)"
proof -
  define k where "k = M + 1 + int (total_mid pre) + int p - 1"
  define b where "b = M + 1 + int (total_mid pre)"
  note mid = gen_indexed_path_mid [OF p, of b]
  have sound: "src_tgt_ids ep \<notin> src_tgt_ids ` set post \<and> even p \<and> v = path_nodes ep ! p"
    if "map_of nodes k = Some v" for v
  proof -
    from map_of_SomeD [OF that [unfolded nodes]]
    obtain item where item: "item \<in> set (map snd ips)" "(k, v) \<in> set (even_entries 0 item)"
      by auto
    then obtain q where q: "q < length item" "even q" "item ! q = (k, v)"
      by (auto simp: in_even_entries)
    from remaining_fresh_key_entry [OF ips le eps p item(1) q(1)] q(3)
    have "src_tgt_ids ep \<notin> src_tgt_ids ` set post \<and> q = p \<and> item = gen_indexed_path b ep"
      by (simp add: k_def b_def)
    then show ?thesis
      using q(2,3) mid by simp
  qed
  show ?thesis
  proof (cases "src_tgt_ids ep \<notin> src_tgt_ids ` set post \<and> even p")
    case True
    have "map_of ips (src_tgt_ids ep) = Some (gen_indexed_path b ep)"
      using remaining_last [of ep post "M + 1" pre] True ips(1) eps by (simp add: b_def)
    then have "gen_indexed_path b ep \<in> set (map snd ips)"
      by (force dest: map_of_SomeD)
    moreover have "(k, path_nodes ep ! p) \<in> set (even_entries 0 (gen_indexed_path b ep))"
      using mid True by (auto simp: in_even_entries k_def b_def)
    ultimately have "k \<in> fst ` set (rev (concat (map (even_entries 0) (map snd ips))))"
      by force
    then obtain v where "map_of nodes k = Some v"
      unfolding nodes by (metis weak_map_of_SomeI imageE prod.collapse)
    then show ?thesis
      using sound True by (simp add: k_def)
  next
    case False
    have "map_of nodes k = None"
    proof (rule ccontr)
      assume "map_of nodes k \<noteq> None"
      then obtain v where "map_of nodes k = Some v"
        by auto
      from sound [OF this] False show False
        by simp
    qed
    then show ?thesis
      using False by (simp add: k_def)
  qed
qed

text \<open>No edge key mentions a fresh id of a path that a later path replaces.\<close>

lemma remaining_edge_absent:
  assumes ips: "map_of ips = remaining (M + 1) eps" "distinct (map fst ips)"
    and edges: "map_of edges =
          map_of (rev (concat (map (\<lambda>item. edge_entries (map fst item) 0 item) (map snd ips))))"
    and bound: "\<forall>item \<in> set (map snd ips). \<forall>q < length item. odd q \<longrightarrow> q + 1 < length item"
    and le: "\<forall>x \<in> set eps. fst (src_tgt_ids x) \<le> M \<and> snd (src_tgt_ids x) \<le> M"
    and eps: "eps = pre @ ep # post"
    and p: "0 < p" "p + 1 < length (path_nodes ep)"
    and replaced: "src_tgt_ids ep \<in> src_tgt_ids ` set post"
  shows "map_of edges (M + 1 + int (total_mid pre) + int p - 1, k') = None
    \<and> map_of edges (k', M + 1 + int (total_mid pre) + int p - 1) = None"
proof -
  define k where "k = M + 1 + int (total_mid pre) + int p - 1"
  have no: "k1 \<noteq> k \<and> k2 \<noteq> k" if "map_of edges (k1, k2) = Some v" for k1 k2 v
  proof -
    from map_of_SomeD [OF that [unfolded edges]]
    obtain item where item: "item \<in> set (map snd ips)"
      "((k1, k2), v) \<in> set (edge_entries (map fst item) 0 item)"
      by auto
    then obtain q where q: "q < length item" "odd q"
      "k1 = map fst item ! (q - 1)" "k2 = map fst item ! (q + 1)"
      by (auto simp: in_edge_entries)
    have q1: "q + 1 < length item"
      using bound item(1) q(1,2) by blast
    have k1: "k1 = fst (item ! (q - 1))" and k2: "k2 = fst (item ! (q + 1))"
      using q q1 by simp_all
    have "k1 \<noteq> k"
    proof
      assume "k1 = k"
      then have "fst (item ! (q - 1)) = M + 1 + int (total_mid pre) + int p - 1"
        using k1 by (simp add: k_def)
      moreover have "q - 1 < length item"
        using q(1) by simp
      ultimately show False
        using remaining_fresh_key_entry [OF ips le eps p item(1)] replaced by blast
    qed
    moreover have "k2 \<noteq> k"
    proof
      assume "k2 = k"
      then have "fst (item ! (q + 1)) = M + 1 + int (total_mid pre) + int p - 1"
        using k2 by (simp add: k_def)
      from remaining_fresh_key_entry [OF ips le eps p item(1) q1 this] replaced
      show False by simp
    qed
    ultimately show ?thesis by simp
  qed
  have "map_of edges (k, k') = None"
    using no [of k k'] by (cases "map_of edges (k, k')") auto
  moreover have "map_of edges (k', k) = None"
    using no [of k' k] by (cases "map_of edges (k', k)") auto
  ultimately show ?thesis
    by (simp add: k_def)
qed

text \<open>
  The edge of an intermediate element at an odd position of a path that is not replaced,
  whenever the function returns: under the pair of the ids before and after it the
  edges hold its kind. No other entry is written under this pair: a pair with a fresh
  id belongs to one path, and a pair of two endpoint ids is the pair of a path of three
  elements, of which one remains.
\<close>

lemma remaining_edge_lookup:
  assumes ips: "map_of ips = remaining (M + 1) eps" "distinct (map fst ips)"
    and edges: "map_of edges =
          map_of (rev (concat (map (\<lambda>item. edge_entries (map fst item) 0 item) (map snd ips))))"
    and bound: "\<forall>item \<in> set (map snd ips). \<forall>q < length item. odd q \<longrightarrow> q + 1 < length item"
    and le: "\<forall>x \<in> set eps. fst (src_tgt_ids x) \<le> M \<and> snd (src_tgt_ids x) \<le> M"
    and eps: "eps = pre @ ep # post"
    and last: "src_tgt_ids ep \<notin> src_tgt_ids ` set post"
    and p: "0 < p" "p + 1 < length (path_nodes ep)" "odd p"
  shows "map_of edges (key_at (M + 1 + int (total_mid pre)) ep (p - 1),
                       key_at (M + 1 + int (total_mid pre)) ep (p + 1)) =
           Some (snd (path_nodes ep ! p))"
proof -
  define b where "b = M + 1 + int (total_mid pre)"
  define item0 where "item0 = gen_indexed_path b ep"
  define l where
    "l = concat (map (\<lambda>item. edge_entries (map fst item) 0 item) (map snd ips))"
  have "map_of ips (src_tgt_ids ep) = Some item0"
    using remaining_last [OF last, of "M + 1" pre] ips(1) eps by (simp add: b_def item0_def)
  then have item0: "item0 \<in> set (map snd ips)"
    by (force dest: map_of_SomeD)
  have mid: "p < length item0" "item0 ! p = (b + int p - 1, path_nodes ep ! p)"
    using gen_indexed_path_mid [OF p(1,2), of b] by (simp_all add: item0_def)
  have p1: "p + 1 < length item0"
    using bound item0 mid(1) p(3) by blast
  have nth0: "q < length (path_nodes ep) \<and> fst (item0 ! q) = key_at b ep q"
    if "q < length item0" for q
    using gen_indexed_path_nth [of q b ep] that by (simp add: item0_def)
  have in_l: "((key_at b ep (p - 1), key_at b ep (p + 1)), snd (path_nodes ep ! p)) \<in> set l"
  proof -
    have "((map fst item0 ! (p - 1), map fst item0 ! (p + 1)), snd (snd (item0 ! p)))
        \<in> set (edge_entries (map fst item0) 0 item0)"
      using mid(1) p(3) by (auto simp: in_edge_entries)
    moreover have "map fst item0 ! (p - 1) = key_at b ep (p - 1)"
      "map fst item0 ! (p + 1) = key_at b ep (p + 1)"
      using nth0 [of "p - 1"] nth0 [of "p + 1"] p1 by simp_all
    ultimately show ?thesis
      using item0 mid(2) unfolding l_def by force
  qed
  have uniq: "v' = snd (path_nodes ep ! p)"
    if "((key_at b ep (p - 1), key_at b ep (p + 1)), v') \<in> set l" for v'
  proof -
    from that obtain item where item: "item \<in> set (map snd ips)"
      "((key_at b ep (p - 1), key_at b ep (p + 1)), v') \<in> set (edge_entries (map fst item) 0 item)"
      unfolding l_def by auto
    then obtain q where q: "q < length item" "odd q"
      "key_at b ep (p - 1) = map fst item ! (q - 1)"
      "key_at b ep (p + 1) = map fst item ! (q + 1)" "v' = snd (snd (item ! q))"
      by (auto simp: in_edge_entries)
    have q1: "q + 1 < length item"
      using bound item(1) q(1,2) by blast
    have qm: "q - 1 < length item"
      using q(1) by simp
    have k1: "fst (item ! (q - 1)) = key_at b ep (p - 1)"
      and k2: "fst (item ! (q + 1)) = key_at b ep (p + 1)"
      using q(3,4) q1 qm by simp_all
    have same: "item = item0 \<and> q = p"
    proof (cases "1 < p")
      case True
      then have pm: "0 < p - 1" "p - 1 + 1 < length (path_nodes ep)"
        using p(2) by simp_all
      have "fst (item ! (q - 1)) = M + 1 + int (total_mid pre) + int (p - 1) - 1"
        using k1 pm by (simp add: key_at_mid b_def)
      from remaining_fresh_key_entry [OF ips le eps pm item(1) qm this]
      have "q - 1 = p - 1" "item = item0"
        by (simp_all add: item0_def b_def)
      then show ?thesis
        using q(2) p(1) by (auto elim: oddE)
    next
      case False
      then have p_1: "p = 1"
        using p(1) by simp
      show ?thesis
      proof (cases "3 < length (path_nodes ep)")
        case True
        then have pm: "0 < (2 :: nat)" "2 + 1 < length (path_nodes ep)"
          by simp_all
        have "fst (item ! (q + 1)) = M + 1 + int (total_mid pre) + int 2 - 1"
          using k2 pm by (simp add: key_at_mid b_def p_1)
        from remaining_fresh_key_entry [OF ips le eps pm item(1) q1 this]
        have "q + 1 = 2" "item = item0"
          by (simp_all add: item0_def b_def)
        then show ?thesis
          using p_1 by simp
      next
        case False
        have "2 < length (path_nodes ep)"
          using nth0 [OF p1] by (simp add: p_1)
        with False have len: "length (path_nodes ep) = 3"
          by simp
        have K1: "key_at b ep (p - 1) = fst (src_tgt_ids ep)"
          and K2: "key_at b ep (p + 1) = snd (src_tgt_ids ep)"
          using len by (simp_all add: key_at_def p_1)
        have "ep \<in> set eps"
          using eps by simp
        then have leM: "fst (src_tgt_ids ep) \<le> M" "snd (src_tgt_ids ep) \<le> M"
          using le by auto
        from remaining_item_entry [OF ips item(1)]
        obtain pre' x post' where d: "eps = pre' @ x # post'"
          "src_tgt_ids x \<notin> src_tgt_ids ` set post'"
          "item = gen_indexed_path (M + 1 + int (total_mid pre')) x"
          and pos: "\<forall>q < length item. q < length (path_nodes x)
            \<and> fst (item ! q) = key_at (M + 1 + int (total_mid pre')) x q"
          by blast
        have q_1: "q = 1"
        proof (rule ccontr)
          assume "q \<noteq> 1"
          then have "0 < q - 1"
            using q(2) by (cases q) (auto elim: oddE)
          moreover have "q - 1 + 1 < length (path_nodes x)"
            using pos q(1) \<open>0 < q - 1\<close> by simp
          ultimately have "key_at (M + 1 + int (total_mid pre')) x (q - 1) =
              M + 1 + int (total_mid pre') + int (q - 1) - 1"
            by (simp add: key_at_mid)
          then show False
            using pos qm k1 K1 leM(1) \<open>0 < q - 1\<close> by simp
        qed
        have s: "fst (src_tgt_ids x) = fst (src_tgt_ids ep)"
          using pos qm k1 K1 q_1 by (simp add: key_at_def)
        have lx: "2 < length (path_nodes x)"
          using pos q1 q_1 by simp
        have "q + 1 = 2"
          using q_1 by simp
        then have kx2: "key_at (M + 1 + int (total_mid pre')) x 2 = snd (src_tgt_ids ep)"
          using pos [rule_format, OF q1] k2 K2 by (simp add: numeral_2_eq_2)
        have "length (path_nodes x) = 3"
        proof (rule ccontr)
          assume "length (path_nodes x) \<noteq> 3"
          then have "2 + 1 < length (path_nodes x)"
            using lx by simp
          then have "key_at (M + 1 + int (total_mid pre')) x 2 =
              M + 1 + int (total_mid pre') + int 2 - 1"
            by (simp add: key_at_mid)
          then show False
            using kx2 leM(2) by simp
        qed
        then have e: "snd (src_tgt_ids x) = snd (src_tgt_ids ep)"
          using kx2 by (simp add: key_at_def)
        have "src_tgt_ids x = src_tgt_ids ep"
          using s e by (simp add: prod_eq_iff)
        from last_of_pair_unique [OF _ this d(2) last, of pre' pre]
        have "pre' = pre \<and> x = ep"
          using d(1) eps by simp
        then show ?thesis
          using d(3) q_1 p_1 by (simp add: item0_def b_def)
      qed
    qed
    then show ?thesis
      using q(5) mid(2) by simp
  qed
  have "map_of (rev l) (key_at b ep (p - 1), key_at b ep (p + 1)) = Some (snd (path_nodes ep ! p))"
    using map_of_rev_unique [OF in_l] uniq by blast
  then show ?thesis
    unfolding edges l_def b_def .
qed

subsection \<open>Lattice assembler: a pair of endpoint ids that occurs twice\<close>




end
